theory Spec2Isabelle
  imports Complex_Main "HOL-Library.Word" "HOL-Library.Log_Nat"
begin

section \<open>Data model of the colour raster engine\<close>

text \<open>
  The Go structs \<^verbatim>\<open>Pixel\<close>, \<^verbatim>\<open>PPM\<close> and \<^verbatim>\<open>Point\<close>. A \<^verbatim>\<open>uint8\<close> is an 8-bit word. A
  Go \<^verbatim>\<open>int\<close> has 64 bits; it is modelled as a mathematical integer between \<open>-2^63\<close> and
  \<open>2^63 - 1\<close>, and \<open>wrap64\<close> is what Go's \<^verbatim>\<open>+\<close>, \<^verbatim>\<open>-\<close> and \<^verbatim>\<open>*\<close> make of the exact result.
  The drawing functions compute with coordinates and sizes that the caller chooses, so
  their arithmetic is written with \<open>wrap64\<close>. The loop counters and sums of the
  other functions are bounded by the size of a buffer that fits in memory; they are
  written without it. The field \<^verbatim>\<open>max\<close> is called \<open>max_ppm\<close> here.
\<close>

type_synonym uint8 = "8 word"

definition wrap64 :: "int \<Rightarrow> int" where
  "wrap64 n = (n + 2 ^ 63) mod 2 ^ 64 - 2 ^ 63"

record Pixel =
  R :: uint8
  G :: uint8
  B :: uint8

record PPM =
  data :: "Pixel list list"
  width :: int
  height :: int
  magicNumber :: string
  max_ppm :: uint8

record Point =
  X :: int
  Y :: int

text \<open>
  Everything that aborts the Go program, or that \<^verbatim>\<open>ReadPPM\<close> and \<^verbatim>\<open>Save\<close> return as an
  \<^verbatim>\<open>error\<close>, is a value of this type. The decoder's constructors carry the row and column
  that the Go message prints. \<open>FloatConversionUndefined\<close> is not an abort: it marks a run
  that has reached a conversion \<^verbatim>\<open>int(f)\<close> whose result the Go language leaves to the
  implementation, so that what the program does from there on is not determined by its
  source.
\<close>

datatype error =
    IndexOutOfBounds
  | RuntimeIndexOutOfRange
  | IntegerDivideByZero
  | FloatConversionUndefined
  | StackExhausted
  | MagicNumberError
  | ErrReadingMagicNumber
  | InvalidMagicNumber string
  | ErrReadingDimensions
  | InvalidDimensions
  | NonPositiveDimensions
  | ErrReadingMaxValue
  | InvalidMaxValue
  | ErrReadingRow int
  | FieldIndexOutOfRange int int
  | ErrParsingRed int int
  | ErrParsingGreen int int
  | ErrParsingBlue int int
  | UnexpectedEOFAtRow int
  | ShortRow int int int

definition bindE :: "error + 'a \<Rightarrow> ('a \<Rightarrow> error + 'b) \<Rightarrow> error + 'b" where
  "bindE m f = (case m of Inl e \<Rightarrow> Inl e | Inr v \<Rightarrow> f v)"

text \<open>A Go loop \<^verbatim>\<open>for i := lo; i <= hi; i++\<close> whose body may panic, over the state \<open>s\<close>.\<close>

fun forE :: "int list \<Rightarrow> (int \<Rightarrow> 's \<Rightarrow> error + 's) \<Rightarrow> 's \<Rightarrow> error + 's" where
  "forE [] f s = Inr s"
| "forE (i # js) f s = bindE (f i s) (forE js f)"

text \<open>Slice indexing: Go panics at run time when the index is out of range.\<close>

definition index :: "'a list \<Rightarrow> int \<Rightarrow> error + 'a" where
  "index xs i = (if 0 \<le> i \<and> i < int (length xs) then Inr (xs ! nat i)
                 else Inl RuntimeIndexOutOfRange)"

definition store :: "'a list \<Rightarrow> int \<Rightarrow> 'a \<Rightarrow> error + 'a list" where
  "store xs i v = (if 0 \<le> i \<and> i < int (length xs) then Inr (xs[nat i := v])
                   else Inl RuntimeIndexOutOfRange)"

text \<open>\<^verbatim>\<open>d[y][x]\<close> as an expression and as the target of an assignment.\<close>

definition getPx :: "Pixel list list \<Rightarrow> int \<Rightarrow> int \<Rightarrow> error + Pixel" where
  "getPx d y x = bindE (index d y) (\<lambda>row. index row x)"

definition setPx :: "Pixel list list \<Rightarrow> int \<Rightarrow> int \<Rightarrow> Pixel \<Rightarrow> error + Pixel list list" where
  "setPx d y x v =
     bindE (index d y) (\<lambda>row. bindE (store row x v) (\<lambda>row'. store d y row'))"

text \<open>The size invariant of the pixel grid: \<open>height\<close> rows of \<open>width\<close> pixels each.\<close>

definition wf_ppm :: "PPM \<Rightarrow> bool" where
  "wf_ppm ppm \<longleftrightarrow>
     int (length (data ppm)) = height ppm \<and>
     list_all (\<lambda>row. int (length row) = width ppm) (data ppm)"

section \<open>Pixel access\<close>

definition At :: "PPM \<Rightarrow> int \<Rightarrow> int \<Rightarrow> error + Pixel" where
  "At ppm x y =
     (if x < 0 \<or> x \<ge> width ppm \<or> y < 0 \<or> y \<ge> height ppm then Inl IndexOutOfBounds
      else getPx (data ppm) y x)"

definition Set_PPM :: "PPM \<Rightarrow> int \<Rightarrow> int \<Rightarrow> Pixel \<Rightarrow> error + PPM" where
  "Set_PPM ppm x y v =
     (if x < 0 \<or> x \<ge> width ppm \<or> y < 0 \<or> y \<ge> height ppm then Inl IndexOutOfBounds
      else bindE (setPx (data ppm) y x v) (\<lambda>d. Inr (ppm\<lparr>data := d\<rparr>)))"

definition SetPixel :: "PPM \<Rightarrow> Point \<Rightarrow> Pixel \<Rightarrow> error + PPM" where
  "SetPixel ppm p color =
     (if X p \<ge> 0 \<and> X p < width ppm \<and> Y p \<ge> 0 \<and> Y p < height ppm
      then bindE (setPx (data ppm) (Y p) (X p) color) (\<lambda>d. Inr (ppm\<lparr>data := d\<rparr>))
      else Inr ppm)"

section \<open>Invert\<close>

definition invertAt :: "int \<Rightarrow> int \<Rightarrow> PPM \<Rightarrow> error + PPM" where
  "invertAt y x ppm =
     bindE (getPx (data ppm) y x) (\<lambda>pixel.
     bindE (setPx (data ppm) y x
              (pixel\<lparr>R := 255 - R pixel, G := 255 - G pixel, B := 255 - B pixel\<rparr>)) (\<lambda>d.
     Inr (ppm\<lparr>data := d\<rparr>)))"

definition Invert :: "PPM \<Rightarrow> error + PPM" where
  "Invert ppm =
     forE [0 .. height ppm - 1] (\<lambda>y. forE [0 .. width ppm - 1] (\<lambda>x. invertAt y x)) ppm"

text \<open>The pixel that \<^verbatim>\<open>Invert\<close> stores for \<open>p\<close>, used to state its effect.\<close>

definition inverted :: "Pixel \<Rightarrow> Pixel" where
  "inverted p = p\<lparr>R := 255 - R p, G := 255 - G p, B := 255 - B p\<rparr>"

section \<open>Filled rectangle\<close>

text \<open>The assignment \<^verbatim>\<open>ppm.data[y][x] = color\<close>, with no bounds check of its own.\<close>

definition assignPx :: "int \<Rightarrow> int \<Rightarrow> Pixel \<Rightarrow> PPM \<Rightarrow> error + PPM" where
  "assignPx y x color ppm = bindE (setPx (data ppm) y x color) (\<lambda>d. Inr (ppm\<lparr>data := d\<rparr>))"

text \<open>
  The two branches on \<^verbatim>\<open>p1.Y+height\<close> hold the same row body in the source; it is
  written once here as \<open>fillRow\<close>, and the sums \<^verbatim>\<open>p1.X+width\<close> and \<^verbatim>\<open>p1.Y+height\<close>
  once as \<open>right\<close> and \<open>bottom\<close>. The loop counters stay below a bound and
  do not wrap.
\<close>

definition DrawFilledRectangle :: "PPM \<Rightarrow> Point \<Rightarrow> int \<Rightarrow> int \<Rightarrow> Pixel \<Rightarrow> error + PPM" where
  "DrawFilledRectangle ppm p1 w h color =
     (let right = wrap64 (X p1 + w);
          bottom = wrap64 (Y p1 + h);
          fillRow = (\<lambda>y s.
            if right < width ppm
              then forE [X p1 .. right] (\<lambda>x. assignPx y x color) s
            else if right > width ppm
              then forE [X p1 .. width ppm - 1] (\<lambda>x. assignPx y x color) s
            else Inr s)
      in if bottom < height ppm then forE [Y p1 .. bottom - 1] fillRow ppm
         else if bottom > height ppm then forE [Y p1 .. height ppm - 1] fillRow ppm
         else Inr ppm)"

section \<open>Example buffers\<close>

definition black :: Pixel where
  "black = \<lparr>R = 0, G = 0, B = 0\<rparr>"

definition red :: Pixel where
  "red = \<lparr>R = 255, G = 0, B = 0\<rparr>"

definition green :: Pixel where
  "green = \<lparr>R = 0, G = 255, B = 0\<rparr>"

definition blue :: Pixel where
  "blue = \<lparr>R = 0, G = 0, B = 255\<rparr>"

definition white :: Pixel where
  "white = \<lparr>R = 255, G = 255, B = 255\<rparr>"

definition canvas2x2 :: PPM where
  "canvas2x2 = \<lparr>data = [[black, black], [black, black]], width = 2, height = 2,
                 magicNumber = ''P3'', max_ppm = 255\<rparr>"

section \<open>Text helpers of the Go library\<close>

text \<open>
  A file is the list of its bytes; Go strings are byte strings, and \<open>char\<close> is a byte.
  \<^verbatim>\<open>strings.TrimSpace\<close>, \<^verbatim>\<open>strings.Fields\<close> and the scanner of \<^verbatim>\<open>fmt.Sscanf\<close> are modelled
  on ASCII white space (the header and the textual pixel data that \<^verbatim>\<open>Save\<close> writes are
  ASCII). The Go functions decode UTF-8 and also take the white space characters beyond
  ASCII (U+0085, U+00A0 and the others) as white space; a header or a textual row that
  holds bytes above \<open>0x7F\<close> is outside this model.
\<close>

definition newline :: char where
  "newline = CHR 0x0A"

definition isSpace :: "char \<Rightarrow> bool" where
  "isSpace c \<longleftrightarrow> c \<in> set [CHR '' '', CHR 0x09, CHR 0x0A, CHR 0x0B, CHR 0x0C, CHR 0x0D]"

definition isDigit :: "char \<Rightarrow> bool" where
  "isDigit c \<longleftrightarrow> 48 \<le> (of_char c :: nat) \<and> (of_char c :: nat) \<le> 57"

definition TrimSpace :: "string \<Rightarrow> string" where
  "TrimSpace s = rev (dropWhile isSpace (rev (dropWhile isSpace s)))"

fun fieldsFrom :: "string \<Rightarrow> string \<Rightarrow> string list" where
  "fieldsFrom cur [] = (if cur = [] then [] else [cur])"
| "fieldsFrom cur (c # cs) =
     (if isSpace c then (if cur = [] then fieldsFrom [] cs else cur # fieldsFrom [] cs)
      else fieldsFrom (cur @ [c]) cs)"

definition Fields :: "string \<Rightarrow> string list" where
  "Fields s = fieldsFrom [] s"

definition digitChar :: "nat \<Rightarrow> char" where
  "digitChar d = char_of (48 + d)"

function formatNat :: "nat \<Rightarrow> string" where
  "formatNat n = (if n < 10 then [digitChar n] else formatNat (n div 10) @ [digitChar (n mod 10)])"
  by pat_completeness auto
termination
  by (relation "measure (\<lambda>n. n)") auto

declare formatNat.simps [simp del]

definition formatInt :: "int \<Rightarrow> string" where
  "formatInt i = (if i < 0 then CHR ''-'' # formatNat (nat (- i)) else formatNat (nat i))"

text \<open>
  The verb \<^verbatim>\<open>%d\<close> of \<^verbatim>\<open>fmt.Sscanf\<close>: skip white space (a line break in the input is an
  error), fail at the end of the input, accept a sign (for a signed operand only), then
  take the longest run of digits and underscores; \<^verbatim>\<open>strconv.ParseInt\<close> in base 10 refuses
  an underscore and a value outside the operand's range. What follows the number stays
  unread. The space of the format \<^verbatim>\<open>"%d %d"\<close> wants a space or the end of the input after
  the first number. \<^verbatim>\<open>Sscanf\<close> does not look at what is left after the last verb. The
  result is \<open>None\<close> where \<^verbatim>\<open>Sscanf\<close> returns an error.
\<close>

definition digitVal :: "char \<Rightarrow> nat" where
  "digitVal c = of_char c - 48"

definition decimal :: "string \<Rightarrow> nat" where
  "decimal s = foldl (\<lambda>acc c. 10 * acc + digitVal c) 0 s"

definition skipSpace :: "string \<Rightarrow> string option" where
  "skipSpace s =
     (let s1 = dropWhile (\<lambda>c. isSpace c \<and> c \<noteq> newline) s
      in if s1 \<noteq> [] \<and> hd s1 = newline then None else Some s1)"

definition scanInt :: "string \<Rightarrow> (int \<times> string) option" where
  "scanInt s =
     (case skipSpace s of
        None \<Rightarrow> None
      | Some s1 \<Rightarrow>
          if s1 = [] then None
          else
            let neg = (hd s1 = CHR ''-'');
                s2 = (if hd s1 = CHR ''+'' \<or> hd s1 = CHR ''-'' then tl s1 else s1);
                tok = takeWhile (\<lambda>c. isDigit c \<or> c = CHR ''_'') s2;
                rest = dropWhile (\<lambda>c. isDigit c \<or> c = CHR ''_'') s2;
                v = (if neg then - int (decimal tok) else int (decimal tok))
            in if tok = [] \<or> CHR ''_'' \<in> set tok then None
               else if v < - (2 ^ 63) \<or> 2 ^ 63 \<le> v then None
               else Some (v, rest))"

definition scanUint8 :: "string \<Rightarrow> (uint8 \<times> string) option" where
  "scanUint8 s =
     (case skipSpace s of
        None \<Rightarrow> None
      | Some s1 \<Rightarrow>
          let tok = takeWhile (\<lambda>c. isDigit c \<or> c = CHR ''_'') s1;
              rest = dropWhile (\<lambda>c. isDigit c \<or> c = CHR ''_'') s1
          in if tok = [] \<or> CHR ''_'' \<in> set tok then None
             else if 255 < decimal tok then None
             else Some (word_of_nat (decimal tok), rest))"

definition Sscanf_d_d :: "string \<Rightarrow> (int \<times> int) option" where
  "Sscanf_d_d s =
     (case scanInt s of
        None \<Rightarrow> None
      | Some (a, r1) \<Rightarrow>
          if r1 \<noteq> [] \<and> (\<not> isSpace (hd r1) \<or> hd r1 = newline) then None
          else (case scanInt r1 of None \<Rightarrow> None | Some (b, r2) \<Rightarrow> Some (a, b)))"

definition Sscanf_d_uint8 :: "string \<Rightarrow> uint8 option" where
  "Sscanf_d_uint8 s = (case scanUint8 s of None \<Rightarrow> None | Some (v, r) \<Rightarrow> Some v)"

section \<open>The buffered reader\<close>

text \<open>
  \<^verbatim>\<open>bufio.NewReader(file)\<close>: a buffer of 4096 bytes over the file. \<open>rbuf\<close> holds the bytes
  read from the file and not yet consumed, \<open>rsrc\<close> the bytes still in the file, \<open>reof\<close>
  the pending \<^verbatim>\<open>io.EOF\<close>. A read of a regular file returns as many bytes as were asked
  for, or all that are left.

  \<^verbatim>\<open>ReadString\<close> searches the buffer for the delimiter; failing that it returns what it has
  with the pending error, or sets a full buffer aside and goes on, or fills the buffer
  with one read of the file. The second component of the result is \<open>True\<close> when the
  error is not nil.

  \<^verbatim>\<open>Read(p)\<close> copies what the buffer holds, at most \<open>len(p)\<close> bytes; only when the
  buffer is empty does it read the file, once (directly into \<open>p\<close> when \<open>p\<close> is at least
  as large as the buffer). It does not loop until \<open>p\<close> is full.
\<close>

record reader =
  rbuf :: string
  rsrc :: string
  reof :: bool

definition bufSize :: nat where
  "bufSize = 4096"

function readString :: "char \<Rightarrow> string \<Rightarrow> reader \<Rightarrow> string \<times> bool \<times> reader" where
  "readString delim acc rd =
     (if delim \<in> set (rbuf rd) then
        (acc @ takeWhile (\<lambda>c. c \<noteq> delim) (rbuf rd) @ [delim], False,
         rd\<lparr>rbuf := tl (dropWhile (\<lambda>c. c \<noteq> delim) (rbuf rd))\<rparr>)
      else if reof rd then (acc @ rbuf rd, True, rd\<lparr>rbuf := [], reof := False\<rparr>)
      else if bufSize \<le> length (rbuf rd) then readString delim (acc @ rbuf rd) (rd\<lparr>rbuf := []\<rparr>)
      else if rsrc rd = [] then readString delim acc (rd\<lparr>reof := True\<rparr>)
      else
        let n = min (bufSize - length (rbuf rd)) (length (rsrc rd))
        in readString delim acc (rd\<lparr>rbuf := rbuf rd @ take n (rsrc rd), rsrc := drop n (rsrc rd)\<rparr>))"
  by pat_completeness auto
termination
  by (relation "measures [\<lambda>(d, a, rd). length (rsrc rd), \<lambda>(d, a, rd). (if reof rd then 0 else 1),
        \<lambda>(d, a, rd). length (rbuf rd)]")
     (auto simp: bufSize_def)

declare readString.simps [simp del]

definition Read_bufio :: "nat \<Rightarrow> reader \<Rightarrow> string \<times> bool \<times> reader" where
  "Read_bufio n rd =
     (if n = 0 then
        (if rbuf rd \<noteq> [] then ([], False, rd) else ([], reof rd, rd\<lparr>reof := False\<rparr>))
      else if rbuf rd = [] then
        (if reof rd then ([], True, rd\<lparr>reof := False\<rparr>)
         else if rsrc rd = [] then ([], True, rd)
         else if bufSize \<le> n then (take n (rsrc rd), False, rd\<lparr>rsrc := drop n (rsrc rd)\<rparr>)
         else
           (take n (take bufSize (rsrc rd)), False,
            rd\<lparr>rbuf := drop n (take bufSize (rsrc rd)), rsrc := drop bufSize (rsrc rd)\<rparr>))
      else (take n (rbuf rd), False, rd\<lparr>rbuf := drop n (rbuf rd)\<rparr>))"


section \<open>\<^verbatim>\<open>ReadPPM\<close>\<close>

text \<open>
  The decoder, on the bytes of the file (opening the file by its name is outside the
  model). \<open>readRowP3\<close> and \<open>readRowP6\<close> are the bodies of the two row loops; their state
  is the reader and the rows decoded so far.
\<close>

definition byteOf :: "char \<Rightarrow> uint8" where
  "byteOf c = of_char c"

definition charOf :: "uint8 \<Rightarrow> char" where
  "charOf b = char_of (unat b)"

definition readRowP3 :: "int \<Rightarrow> int \<Rightarrow> reader \<times> Pixel list list \<Rightarrow> error + reader \<times> Pixel list list" where
  "readRowP3 w y st =
     (case st of (rd, d) \<Rightarrow>
      (case readString newline [] rd of (line, err, rd') \<Rightarrow>
       if err then Inl (ErrReadingRow y)
       else
         let fields = Fields line in
         bindE (forE [0 .. w - 1] (\<lambda>x rowData.
                  if x * 3 + 2 \<ge> int (length fields) then Inl (FieldIndexOutOfRange y x)
                  else
                    (case Sscanf_d_uint8 (fields ! nat (x * 3)) of
                       None \<Rightarrow> Inl (ErrParsingRed y x)
                     | Some r \<Rightarrow>
                    (case Sscanf_d_uint8 (fields ! nat (x * 3 + 1)) of
                       None \<Rightarrow> Inl (ErrParsingGreen y x)
                     | Some g \<Rightarrow>
                    (case Sscanf_d_uint8 (fields ! nat (x * 3 + 2)) of
                       None \<Rightarrow> Inl (ErrParsingBlue y x)
                     | Some b \<Rightarrow> store rowData x \<lparr>R = r, G = g, B = b\<rparr>))))
                (replicate (nat w) \<lparr>R = 0, G = 0, B = 0\<rparr>))
           (\<lambda>rowData. bindE (store d y rowData) (\<lambda>d'. Inr (rd', d')))))"

definition readRowP6 :: "int \<Rightarrow> int \<Rightarrow> reader \<times> Pixel list list \<Rightarrow> error + reader \<times> Pixel list list" where
  "readRowP6 w y st =
     (case st of (rd, d) \<Rightarrow>
      (case Read_bufio (nat (w * 3)) rd of (row, err, rd') \<Rightarrow>
       if err then Inl (UnexpectedEOFAtRow y)
       else if int (length row) < w * 3 then Inl (ShortRow y (w * 3) (int (length row)))
       else
         bindE (forE [0 .. w - 1] (\<lambda>x rowData.
                  bindE (index row (x * 3)) (\<lambda>r.
                  bindE (index row (x * 3 + 1)) (\<lambda>g.
                  bindE (index row (x * 3 + 2)) (\<lambda>b.
                  store rowData x \<lparr>R = byteOf r, G = byteOf g, B = byteOf b\<rparr>))))
                (replicate (nat w) \<lparr>R = 0, G = 0, B = 0\<rparr>))
           (\<lambda>rowData. bindE (store d y rowData) (\<lambda>d'. Inr (rd', d')))))"

definition ReadPPM :: "string \<Rightarrow> error + PPM" where
  "ReadPPM file =
     (case readString newline [] \<lparr>rbuf = [], rsrc = file, reof = False\<rparr> of (magicLine, err1, rd1) \<Rightarrow>
      if err1 then Inl ErrReadingMagicNumber
      else
        let magic = TrimSpace magicLine in
        if magic \<noteq> ''P3'' \<and> magic \<noteq> ''P6'' then Inl (InvalidMagicNumber magic)
        else
          (case readString newline [] rd1 of (dimensions, err2, rd2) \<Rightarrow>
           if err2 then Inl ErrReadingDimensions
           else
             (case Sscanf_d_d (TrimSpace dimensions) of
                None \<Rightarrow> Inl InvalidDimensions
              | Some (w, h) \<Rightarrow>
                if w \<le> 0 \<or> h \<le> 0 then Inl NonPositiveDimensions
                else
                  (case readString newline [] rd2 of (maxValue, err3, rd3) \<Rightarrow>
                   if err3 then Inl ErrReadingMaxValue
                   else
                     (case Sscanf_d_uint8 (TrimSpace maxValue) of
                        None \<Rightarrow> Inl InvalidMaxValue
                      | Some mx \<Rightarrow>
                        bindE
                          (if magic = ''P3'' then forE [0 .. h - 1] (readRowP3 w) (rd3, replicate (nat h) [])
                           else if magic = ''P6'' then forE [0 .. h - 1] (readRowP6 w) (rd3, replicate (nat h) [])
                           else Inr (rd3, replicate (nat h) []))
                          (\<lambda>st. Inr \<lparr>data = snd st, width = w, height = h, magicNumber = magic,
                                       max_ppm = mx\<rparr>))))))"

section \<open>\<^verbatim>\<open>Save\<close>\<close>

text \<open>
  The encoder; the result is the content of the file written (creating the file is
  outside the model, and the source ignores the results of its writes).
\<close>

definition formatUint8 :: "uint8 \<Rightarrow> string" where
  "formatUint8 b = formatNat (unat b)"

definition Save :: "PPM \<Rightarrow> error + string" where
  "Save ppm =
     (if magicNumber ppm = ''P6'' \<or> magicNumber ppm = ''P3'' then
        forE [0 .. height ppm - 1] (\<lambda>y out.
          bindE (forE [0 .. width ppm - 1] (\<lambda>x out.
                   bindE (getPx (data ppm) y x) (\<lambda>pixel.
                   if magicNumber ppm = ''P6'' then Inr (out @ [charOf (R pixel), charOf (G pixel), charOf (B pixel)])
                   else if magicNumber ppm = ''P3'' then
                     Inr (out @ formatUint8 (R pixel) @ '' '' @ formatUint8 (G pixel) @ '' '' @
                          formatUint8 (B pixel) @ '' '')
                   else Inr out)) out)
            (\<lambda>out. if magicNumber ppm = ''P3'' then Inr (out @ [newline]) else Inr out))
          (magicNumber ppm @ [newline] @ formatInt (width ppm) @ '' '' @ formatInt (height ppm) @
           [newline] @ formatUint8 (max_ppm ppm) @ [newline])
      else Inl MagicNumberError)"

text \<open>
  The wire format in the words of the specification: the header, then for each row its
  triples, as raw bytes (binary) or as decimal numbers each followed by a space, the row
  closed by a line break (textual).
\<close>

definition pixelBytes :: "Pixel \<Rightarrow> string" where
  "pixelBytes p = [charOf (R p), charOf (G p), charOf (B p)]"

definition pixelText :: "Pixel \<Rightarrow> string" where
  "pixelText p = formatUint8 (R p) @ '' '' @ formatUint8 (G p) @ '' '' @ formatUint8 (B p) @ '' ''"

definition pixelFields :: "Pixel \<Rightarrow> string list" where
  "pixelFields p = [formatUint8 (R p), formatUint8 (G p), formatUint8 (B p)]"

definition header :: "PPM \<Rightarrow> string" where
  "header ppm = magicNumber ppm @ [newline] @ formatInt (width ppm) @ '' '' @
     formatInt (height ppm) @ [newline] @ formatUint8 (max_ppm ppm) @ [newline]"

definition encodeRow :: "string \<Rightarrow> Pixel list \<Rightarrow> string" where
  "encodeRow magic row =
     (if magic = ''P6'' then concat (map pixelBytes row)
      else concat (map pixelText row) @ [newline])"

definition encoding :: "PPM \<Rightarrow> string" where
  "encoding ppm = header ppm @ concat (map (encodeRow (magicNumber ppm)) (data ppm))"

definition bigP6 :: PPM where
  "bigP6 = \<lparr>data = [replicate 1366 black], width = 1366, height = 1, magicNumber = ''P6'',
             max_ppm = 255\<rparr>"

section \<open>\<^verbatim>\<open>float64\<close> arithmetic\<close>

text \<open>
  A \<^verbatim>\<open>float64\<close> is a rational number or one of the three special values. Every
  operation computes the exact result and rounds it to the nearest number with a 53-bit
  significand, ties to even (\<open>round64\<close>); a product and the sum that takes it are
  rounded one after the other, not fused. The exponent range is not limited: the
  operands in this program are integers below \<open>2^63\<close>, their quotients and products,
  which are far from overflow and underflow. Zero has no sign here; the only divisors in
  the program are conversions of integers, and those are never the negative zero.

  \<open>ilog2 a\<close> is the binary exponent of \<open>a > 0\<close>: \<open>2^(ilog2 a) \<le> a < 2^(ilog2 a + 1)\<close>.
\<close>

definition ilog2 :: "rat \<Rightarrow> int" where
  "ilog2 a = (case quotient_of a of (p, q) \<Rightarrow>
                let k = bitlen p - bitlen q in if 2 powi k \<le> a then k else k - 1)"

definition roundEven :: "rat \<Rightarrow> int" where
  "roundEven m =
     (let f = \<lfloor>m\<rfloor>; d = m - of_int f
      in if d < 1 / 2 then f else if 1 / 2 < d then f + 1 else if even f then f else f + 1)"

definition round64 :: "rat \<Rightarrow> rat" where
  "round64 r =
     (if r = 0 then 0
      else let e = ilog2 \<bar>r\<bar> - 52 in of_int (roundEven (r / 2 powi e)) * 2 powi e)"


datatype f64 = Finite rat | PInf | NInf | NaN

definition f64_of_int :: "int \<Rightarrow> f64" where
  "f64_of_int n = Finite (round64 (of_int n))"

fun f64_neg :: "f64 \<Rightarrow> f64" where
  "f64_neg (Finite a) = Finite (- a)"
| "f64_neg PInf = NInf"
| "f64_neg NInf = PInf"
| "f64_neg NaN = NaN"

fun f64_add :: "f64 \<Rightarrow> f64 \<Rightarrow> f64" where
  "f64_add (Finite a) (Finite b) = Finite (round64 (a + b))"
| "f64_add NaN b = NaN"
| "f64_add a NaN = NaN"
| "f64_add PInf NInf = NaN"
| "f64_add NInf PInf = NaN"
| "f64_add PInf b = PInf"
| "f64_add a PInf = PInf"
| "f64_add NInf b = NInf"
| "f64_add a NInf = NInf"

definition f64_sub :: "f64 \<Rightarrow> f64 \<Rightarrow> f64" where
  "f64_sub a b = f64_add a (f64_neg b)"

fun f64_mul :: "f64 \<Rightarrow> f64 \<Rightarrow> f64" where
  "f64_mul (Finite a) (Finite b) = Finite (round64 (a * b))"
| "f64_mul NaN b = NaN"
| "f64_mul a NaN = NaN"
| "f64_mul (Finite a) PInf = (if a = 0 then NaN else if 0 < a then PInf else NInf)"
| "f64_mul (Finite a) NInf = (if a = 0 then NaN else if 0 < a then NInf else PInf)"
| "f64_mul PInf (Finite b) = (if b = 0 then NaN else if 0 < b then PInf else NInf)"
| "f64_mul NInf (Finite b) = (if b = 0 then NaN else if 0 < b then NInf else PInf)"
| "f64_mul PInf PInf = PInf"
| "f64_mul PInf NInf = NInf"
| "f64_mul NInf PInf = NInf"
| "f64_mul NInf NInf = PInf"

fun f64_div :: "f64 \<Rightarrow> f64 \<Rightarrow> f64" where
  "f64_div (Finite a) (Finite b) =
     (if b = 0 then (if a = 0 then NaN else if 0 < a then PInf else NInf)
      else Finite (round64 (a / b)))"
| "f64_div NaN b = NaN"
| "f64_div a NaN = NaN"
| "f64_div (Finite a) PInf = Finite 0"
| "f64_div (Finite a) NInf = Finite 0"
| "f64_div PInf (Finite b) = (if 0 \<le> b then PInf else NInf)"
| "f64_div NInf (Finite b) = (if 0 \<le> b then NInf else PInf)"
| "f64_div PInf PInf = NaN"
| "f64_div PInf NInf = NaN"
| "f64_div NInf PInf = NaN"
| "f64_div NInf NInf = NaN"

text \<open>
  The conversion \<^verbatim>\<open>int(f)\<close> truncates towards zero. For a NaN, an infinity or a value
  outside the 64-bit range the conversion succeeds in Go, with a result that the language
  leaves to the implementation. The model chooses no such result: it ends the run there
  with \<open>FloatConversionUndefined\<close>, and says nothing about what the program does
  afterwards.
\<close>

definition int_of_f64 :: "f64 \<Rightarrow> error + int" where
  "int_of_f64 v =
     (case v of
        Finite r \<Rightarrow>
          let t = (if 0 \<le> r then \<lfloor>r\<rfloor> else \<lceil>r\<rceil>)
          in if - (2 ^ 63) \<le> t \<and> t < 2 ^ 63 then Inr t else Inl FloatConversionUndefined
      | _ \<Rightarrow> Inl FloatConversionUndefined)"

text \<open>Integer division of Go, which truncates towards zero (the divisor is not 0).\<close>

definition goDiv :: "int \<Rightarrow> int \<Rightarrow> int" where
  "goDiv a b = sgn a * sgn b * (\<bar>a\<bar> div \<bar>b\<bar>)"

section \<open>Resize: \<^verbatim>\<open>KNearestNeighbors\<close>\<close>

text \<open>
  \<^verbatim>\<open>KNearestNeighbors\<close> has no result in the source: it prints a line when it refuses
  the target size, and otherwise replaces the buffer. The model returns the lines printed
  together with the buffer after the call. \<^verbatim>\<open>averageColors\<close> divides by the number of
  neighbours, which panics when there is none.
\<close>

definition findKNearestNeighbors :: "PPM \<Rightarrow> int \<Rightarrow> int \<Rightarrow> error + Pixel list" where
  "findKNearestNeighbors ppm x y =
     forE [- 1 .. 1] (\<lambda>dy. forE [- 1 .. 1] (\<lambda>dx neighbors.
       let nx = x + dx; ny = y + dy
       in if nx \<ge> 0 \<and> nx < width ppm \<and> ny \<ge> 0 \<and> ny < height ppm
          then bindE (getPx (data ppm) ny nx) (\<lambda>p. Inr (neighbors @ [p]))
          else Inr neighbors)) []"

definition averageColors :: "PPM \<Rightarrow> Pixel list \<Rightarrow> error + Pixel" where
  "averageColors ppm pixels =
     (case foldl (\<lambda>(totalR, totalG, totalB) pixel.
                    (totalR + uint (R pixel), totalG + uint (G pixel), totalB + uint (B pixel)))
                 (0, 0, 0) pixels of
        (totalR, totalG, totalB) \<Rightarrow>
          let count = int (length pixels)
          in if count = 0 then Inl IntegerDivideByZero
             else Inr \<lparr>R = word_of_int (goDiv totalR count),
                       G = word_of_int (goDiv totalG count),
                       B = word_of_int (goDiv totalB count)\<rparr>)"

definition KNearestNeighbors :: "PPM \<Rightarrow> int \<Rightarrow> int \<Rightarrow> error + string list \<times> PPM" where
  "KNearestNeighbors ppm newWidth newHeight =
     (if newWidth \<le> 0 \<or> newHeight \<le> 0 then Inr ([''Invalid dimensions for resizing.''], ppm)
      else
        let scaleX = f64_div (f64_of_int (width ppm)) (f64_of_int newWidth);
            scaleY = f64_div (f64_of_int (height ppm)) (f64_of_int newHeight)
        in bindE
             (forE [0 .. newHeight - 1] (\<lambda>y. forE [0 .. newWidth - 1] (\<lambda>x resizedData.
                bindE (int_of_f64 (f64_mul (f64_of_int x) scaleX)) (\<lambda>originalX.
                bindE (int_of_f64 (f64_mul (f64_of_int y) scaleY)) (\<lambda>originalY.
                bindE (findKNearestNeighbors ppm originalX originalY) (\<lambda>neighbors.
                bindE (averageColors ppm neighbors) (\<lambda>averageColor.
                setPx resizedData y x averageColor))))))
                (replicate (nat newHeight) (replicate (nat newWidth) \<lparr>R = 0, G = 0, B = 0\<rparr>)))
             (\<lambda>resizedData.
                Inr ([], ppm\<lparr>data := resizedData, width := newWidth, height := newHeight\<rparr>)))"

section \<open>Lines and triangles\<close>

text \<open>
  \<^verbatim>\<open>DrawLine\<close> loops until the current point is the end point, so its model is a
  partial function: \<open>None\<close> stands for a loop that never ends, \<open>Some (Inl e)\<close> for a
  panic and \<open>Some (Inr ppm)\<close> for the buffer after the call. \<open>bindOE\<close> runs the next
  statement on the buffer of the previous one. Every sum, difference and product of the
  loop is a 64-bit one.
\<close>

definition bindOE :: "(error + 'a) option \<Rightarrow> ('a \<Rightarrow> (error + 'b) option) \<Rightarrow> (error + 'b) option" where
  "bindOE m f = (case m of None \<Rightarrow> None | Some (Inl e) \<Rightarrow> Some (Inl e) | Some (Inr v) \<Rightarrow> f v)"

lemma bindOE_mono [partial_function_mono]:
  assumes "\<And>v. mono_option (\<lambda>f. C v f)"
  shows "mono_option (\<lambda>f. bindOE m (\<lambda>v. C v f))"
proof (cases m)
  case None
  then show ?thesis by (simp add: bindOE_def option.const_mono)
next
  case (Some r)
  then show ?thesis using assms by (cases r) (simp_all add: bindOE_def option.const_mono)
qed

definition DrawLinetool :: "int \<Rightarrow> int" where
  "DrawLinetool x = (if x < 0 then wrap64 (- x) else x)"

partial_function (option) drawLineLoop ::
  "int \<Rightarrow> int \<Rightarrow> int \<Rightarrow> int \<Rightarrow> int \<Rightarrow> int \<Rightarrow> Pixel \<Rightarrow> int \<Rightarrow> int \<Rightarrow> int \<Rightarrow> PPM \<Rightarrow> (error + PPM) option"
where
  "drawLineLoop x2 y2 dx dy sx sy color x1 y1 err ppm =
     (case SetPixel ppm \<lparr>X = x1, Y = y1\<rparr> color of
        Inl e \<Rightarrow> Some (Inl e)
      | Inr ppm' \<Rightarrow>
          if x1 = x2 \<and> y1 = y2 then Some (Inr ppm')
          else
            let e2 = wrap64 (2 * err);
                err1 = (if e2 > wrap64 (- dy) then wrap64 (err - dy) else err);
                x1' = (if e2 > wrap64 (- dy) then wrap64 (x1 + sx) else x1);
                err2 = (if e2 < dx then wrap64 (err1 + dx) else err1);
                y1' = (if e2 < dx then wrap64 (y1 + sy) else y1)
            in drawLineLoop x2 y2 dx dy sx sy color x1' y1' err2 ppm')"

declare drawLineLoop.simps [code]

definition DrawLine :: "PPM \<Rightarrow> Point \<Rightarrow> Point \<Rightarrow> Pixel \<Rightarrow> (error + PPM) option" where
  "DrawLine ppm p1 p2 color =
     (let x1 = X p1; y1 = Y p1; x2 = X p2; y2 = Y p2;
          dx = DrawLinetool (wrap64 (x2 - x1));
          dy = DrawLinetool (wrap64 (y2 - y1));
          sx = (if x1 < x2 then 1 else - 1);
          sy = (if y1 < y2 then 1 else - 1);
          err = wrap64 (dx - dy)
      in drawLineLoop x2 y2 dx dy sx sy color x1 y1 err ppm)"

definition DrawTriangle :: "PPM \<Rightarrow> Point \<Rightarrow> Point \<Rightarrow> Point \<Rightarrow> Pixel \<Rightarrow> (error + PPM) option" where
  "DrawTriangle ppm p1 p2 p3 color =
     bindOE (DrawLine ppm p1 p2 color) (\<lambda>ppm.
     bindOE (DrawLine ppm p2 p3 color) (\<lambda>ppm.
     DrawLine ppm p3 p1 color))"

text \<open>
  \<^verbatim>\<open>sort.Slice\<close> sorts a slice of three elements by insertion: each element moves left
  past the elements whose \<open>Y\<close> is larger, so vertices of equal \<open>Y\<close> keep their order.
\<close>

fun insertByY :: "Point \<Rightarrow> Point list \<Rightarrow> Point list" where
  "insertByY p [] = [p]"
| "insertByY p (q # qs) = (if Y p < Y q then p # q # qs else q # insertByY p qs)"

definition sortByY :: "Point list \<Rightarrow> Point list" where
  "sortByY ps = foldl (\<lambda>sorted p. insertByY p sorted) [] ps"

definition FilledTriangleTools :: "Point \<Rightarrow> Point \<Rightarrow> int \<Rightarrow> f64" where
  "FilledTriangleTools p1 p2 y =
     f64_add (f64_of_int (X p1))
       (f64_mul (f64_of_int (wrap64 (y - Y p1)))
          (f64_div (f64_of_int (wrap64 (X p2 - X p1))) (f64_of_int (wrap64 (Y p2 - Y p1)))))"

text \<open>
  The loop \<^verbatim>\<open>for y := vertices[0].Y; y <= vertices[2].Y; y++\<close> of \<^verbatim>\<open>DrawFilledTriangle\<close>,
  from the scanline \<open>y\<close> on. Its counter is a 64-bit integer as well: with the largest
  integer as its bound the loop never ends.
\<close>

partial_function (option) fillScanlines ::
  "Point \<Rightarrow> Point \<Rightarrow> Point \<Rightarrow> Pixel \<Rightarrow> int \<Rightarrow> PPM \<Rightarrow> (error + PPM) option"
where
  "fillScanlines v0 v1 v2 color y ppm =
     (if y \<le> Y v2 then
        let x1 = FilledTriangleTools v0 v2 y;
            x2 = FilledTriangleTools v1 v2 y
        in bindOE (Some (int_of_f64 x1)) (\<lambda>ix1.
           bindOE (Some (int_of_f64 x2)) (\<lambda>ix2.
           bindOE (DrawLine ppm \<lparr>X = ix1, Y = y\<rparr> \<lparr>X = ix2, Y = y\<rparr> color) (\<lambda>ppm'.
           fillScanlines v0 v1 v2 color (wrap64 (y + 1)) ppm')))
      else Some (Inr ppm))"

declare fillScanlines.simps [code]

definition DrawFilledTriangle :: "PPM \<Rightarrow> Point \<Rightarrow> Point \<Rightarrow> Point \<Rightarrow> Pixel \<Rightarrow> (error + PPM) option" where
  "DrawFilledTriangle ppm p1 p2 p3 color =
     (let vertices = sortByY [p1, p2, p3];
          v0 = vertices ! 0; v1 = vertices ! 1; v2 = vertices ! 2
      in fillScanlines v0 v1 v2 color (Y v0) ppm)"

section \<open>Koch snowflake\<close>

text \<open>
  The \<^verbatim>\<open>float64\<close> values of \<^verbatim>\<open>math.Sqrt(3)\<close>, \<^verbatim>\<open>math.Cos(math.Pi/3)\<close> and
  \<^verbatim>\<open>math.Sin(math.Pi/3)\<close>: \<open>1.7320508075688772\<close>, \<open>0.4999999999999999\<close> and
  \<open>0.8660254037844387\<close>. The quotient \<^verbatim>\<open>math.Pi / 3\<close> is a constant expression: Go
  computes it exactly and rounds it once, to \<open>1.0471975511965979\<close>, which is a little
  above the third of \<open>\<pi>\<close>; hence a cosine below one half.
\<close>

definition sqrt3 :: f64 where
  "sqrt3 = Finite (3900231685776981 / 2251799813685248)"

definition cosPi3 :: f64 where
  "cosPi3 = Finite (4503599627370495 / 9007199254740992)"

definition sinPi3 :: f64 where
  "sinPi3 = Finite (7800463371553963 / 9007199254740992)"

text \<open>
  \<^verbatim>\<open>KochSnowflake\<close> recurses on \<open>n - 1\<close> until \<open>n\<close> is 0. From a negative \<open>n\<close> it never
  gets there: the Go program recurses until its stack is exhausted.
\<close>

lemma bindOE_cong [fundef_cong]:
  "m = m' \<Longrightarrow> (\<And>v. m' = Some (Inr v) \<Longrightarrow> f v = f' v) \<Longrightarrow> bindOE m f = bindOE m' f'"
  by (auto simp: bindOE_def split: option.splits sum.splits)

function KochSnowflake :: "PPM \<Rightarrow> int \<Rightarrow> Point \<Rightarrow> Point \<Rightarrow> Pixel \<Rightarrow> (error + PPM) option" where
  "KochSnowflake ppm n point1 point2 color =
     (if n = 0 then DrawLine ppm point1 point2 color
      else if n < 0 then Some (Inl StackExhausted)
      else
        let ex = wrap64 (X point2 - X point1);
            ey = wrap64 (Y point2 - Y point1);
            p_1 = \<lparr>X = wrap64 (X point1 + goDiv ex 3),
                   Y = wrap64 (Y point1 + goDiv ey 3)\<rparr>;
            p_2 = \<lparr>X = wrap64 (X point1 + goDiv (wrap64 (2 * ex)) 3),
                   Y = wrap64 (Y point1 + goDiv (wrap64 (2 * ey)) 3)\<rparr>;
            fx = f64_of_int (wrap64 (X p_1 - X p_2));
            fy = f64_of_int (wrap64 (Y p_1 - Y p_2))
        in bindOE (Some (int_of_f64 (f64_sub (f64_mul fx cosPi3) (f64_mul fy sinPi3)))) (\<lambda>rx.
           bindOE (Some (int_of_f64 (f64_add (f64_mul fx sinPi3) (f64_mul fy cosPi3)))) (\<lambda>ry.
           let p3 = \<lparr>X = wrap64 (rx + X p_2), Y = wrap64 (ry + Y p_2)\<rparr>
           in bindOE (KochSnowflake ppm (n - 1) point1 p_1 color) (\<lambda>ppm.
              bindOE (KochSnowflake ppm (n - 1) p_1 p3 color) (\<lambda>ppm.
              bindOE (KochSnowflake ppm (n - 1) p3 p_2 color) (\<lambda>ppm.
              KochSnowflake ppm (n - 1) p_2 point2 color))))))"
  by pat_completeness auto
termination
  by (relation "measure (\<lambda>(ppm, n, point1, point2, color). nat n)") auto

declare KochSnowflake.simps [simp del]

definition DrawKochSnowflake :: "PPM \<Rightarrow> int \<Rightarrow> Point \<Rightarrow> int \<Rightarrow> Pixel \<Rightarrow> (error + PPM) option" where
  "DrawKochSnowflake ppm n start sz color =
     bindOE (Some (int_of_f64 (f64_div (f64_mul sqrt3 (f64_of_int sz)) (Finite 2)))) (\<lambda>height.
     let point1 = start;
         point2 = \<lparr>X = wrap64 (X start + sz), Y = Y start\<rparr>;
         point3 = \<lparr>X = wrap64 (X start + goDiv sz 2), Y = wrap64 (Y start + height)\<rparr>
     in bindOE (KochSnowflake ppm n point1 point2 color) (\<lambda>ppm.
        bindOE (KochSnowflake ppm n point2 point3 color) (\<lambda>ppm.
        KochSnowflake ppm n point3 point1 color)))"

section \<open>Basic facts about the loop and the slice operations\<close>

lemma bindE_Inr [simp]: "bindE (Inr v) f = f v"
  by (simp add: bindE_def)

lemma bindE_Inl [simp]: "bindE (Inl e) f = Inl e"
  by (simp add: bindE_def)

lemma forE_append: "forE (xs @ ys) f s = bindE (forE xs f s) (forE ys f)"
proof (induction xs arbitrary: s)
  case Nil
  show ?case by simp
next
  case (Cons i xs)
  show ?case
  proof (cases "f i s")
    case (Inl e)
    then show ?thesis by simp
  next
    case (Inr s')
    then show ?thesis using Cons.IH [of s'] by simp
  qed
qed

text \<open>
  A counted loop whose \<open>i\<close>-th iteration takes the state \<open>F i\<close> to \<open>F (i + 1)\<close> ends in
  \<open>F (hi + 1)\<close>.
\<close>

lemma forE_steps_nat:
  assumes "\<And>i. lo \<le> i \<Longrightarrow> i < lo + int n \<Longrightarrow> f i (F i) = Inr (F (i + 1))"
  shows "forE [lo .. lo + int n - 1] f (F lo) = Inr (F (lo + int n))"
  using assms
proof (induction n)
  case 0
  show ?case by simp
next
  case (Suc n)
  have split: "[lo .. lo + int (Suc n) - 1] = [lo .. lo + int n - 1] @ [lo + int n]"
    using upto_rec2 [of lo "lo + int n"] by simp
  have prefix: "forE [lo .. lo + int n - 1] f (F lo) = Inr (F (lo + int n))"
    using Suc.IH Suc.prems by simp
  have last: "f (lo + int n) (F (lo + int n)) = Inr (F (lo + int n + 1))"
    using Suc.prems [of "lo + int n"] by simp
  show ?case
    unfolding split forE_append prefix
    using last by (simp add: add.commute add.left_commute)
qed

lemma forE_steps:
  assumes "lo \<le> hi + 1"
    and "\<And>i. lo \<le> i \<Longrightarrow> i \<le> hi \<Longrightarrow> f i (F i) = Inr (F (i + 1))"
  shows "forE [lo .. hi] f (F lo) = Inr (F (hi + 1))"
proof -
  obtain n where n: "hi + 1 = lo + int n"
    using assms(1) by (metis zle_iff_zadd)
  have "forE [lo .. lo + int n - 1] f (F lo) = Inr (F (lo + int n))"
    using assms(2) n by (intro forE_steps_nat) simp
  moreover have "lo + int n - 1 = hi" using n by simp
  ultimately show ?thesis using n by simp
qed

lemma index_in_range [simp]:
  "0 \<le> i \<Longrightarrow> i < int (length xs) \<Longrightarrow> index xs i = Inr (xs ! nat i)"
  by (simp add: index_def)

lemma store_in_range [simp]:
  "0 \<le> i \<Longrightarrow> i < int (length xs) \<Longrightarrow> store xs i v = Inr (xs[nat i := v])"
  by (simp add: store_def)

lemma getPx_in_range:
  "0 \<le> y \<Longrightarrow> y < int (length d) \<Longrightarrow> 0 \<le> x \<Longrightarrow> x < int (length (d ! nat y))
   \<Longrightarrow> getPx d y x = Inr (d ! nat y ! nat x)"
  by (simp add: getPx_def)

lemma setPx_in_range:
  "0 \<le> y \<Longrightarrow> y < int (length d) \<Longrightarrow> 0 \<le> x \<Longrightarrow> x < int (length (d ! nat y))
   \<Longrightarrow> setPx d y x v = Inr (d[nat y := (d ! nat y)[nat x := v]])"
  by (simp add: setPx_def)

lemma wf_ppm_row:
  assumes "wf_ppm ppm" "0 \<le> y" "y < height ppm"
  shows "int (length (data ppm ! nat y)) = width ppm"
proof -
  have "nat y < length (data ppm)"
    using assms by (simp add: wf_ppm_def nat_less_iff)
  then show ?thesis
    using assms(1) by (simp add: wf_ppm_def list_all_length)
qed

section \<open>Pixel access: \<^verbatim>\<open>At\<close>, \<^verbatim>\<open>Set\<close>, \<^verbatim>\<open>SetPixel\<close>\<close>

text \<open>
  C2, as the code has it. Outside the canvas \<^verbatim>\<open>SetPixel\<close> returns the buffer unchanged,
  while \<^verbatim>\<open>At\<close> and \<^verbatim>\<open>Set\<close> both abort with the panic "Index out of bounds". Inside
  the canvas of a buffer that satisfies the size invariant, \<^verbatim>\<open>At\<close> returns the stored
  pixel, \<^verbatim>\<open>Set\<close> and \<^verbatim>\<open>SetPixel\<close> store the given pixel at that place and nowhere else,
  and reading the place back gives the pixel written.
\<close>

theorem pixel_access_bounds:
  "(x < 0 \<or> width ppm \<le> x \<or> y < 0 \<or> height ppm \<le> y \<longrightarrow>
      SetPixel ppm \<lparr>X = x, Y = y\<rparr> c = Inr ppm \<and>
      At ppm x y = Inl IndexOutOfBounds \<and>
      Set_PPM ppm x y c = Inl IndexOutOfBounds) \<and>
   (wf_ppm ppm \<and> 0 \<le> x \<and> x < width ppm \<and> 0 \<le> y \<and> y < height ppm \<longrightarrow>
      At ppm x y = Inr (data ppm ! nat y ! nat x) \<and>
      Set_PPM ppm x y c = Inr (ppm\<lparr>data := (data ppm)[nat y := (data ppm ! nat y)[nat x := c]]\<rparr>) \<and>
      SetPixel ppm \<lparr>X = x, Y = y\<rparr> c = Set_PPM ppm x y c \<and>
      bindE (Set_PPM ppm x y c) (\<lambda>p. At p x y) = Inr c)"
proof (intro conjI impI)
  assume out: "x < 0 \<or> width ppm \<le> x \<or> y < 0 \<or> height ppm \<le> y"
  show "SetPixel ppm \<lparr>X = x, Y = y\<rparr> c = Inr ppm"
    using out by (auto simp: SetPixel_def)
  show "At ppm x y = Inl IndexOutOfBounds"
    using out by (auto simp: At_def)
  show "Set_PPM ppm x y c = Inl IndexOutOfBounds"
    using out by (auto simp: Set_PPM_def)
next
  assume inr: "wf_ppm ppm \<and> 0 \<le> x \<and> x < width ppm \<and> 0 \<le> y \<and> y < height ppm"
  then have y: "0 \<le> y" "y < int (length (data ppm))"
    and x: "0 \<le> x" "x < int (length (data ppm ! nat y))"
    using wf_ppm_row [of ppm y] by (simp_all add: wf_ppm_def)
  have ylt: "nat y < length (data ppm)" using y by (simp add: nat_less_iff)
  have xlt: "nat x < length (data ppm ! nat y)" using x by (simp add: nat_less_iff)
  show at: "At ppm x y = Inr (data ppm ! nat y ! nat x)"
    using inr getPx_in_range [OF y x] by (simp add: At_def)
  show set: "Set_PPM ppm x y c =
      Inr (ppm\<lparr>data := (data ppm)[nat y := (data ppm ! nat y)[nat x := c]]\<rparr>)"
    using inr setPx_in_range [OF y x] by (simp add: Set_PPM_def)
  show "SetPixel ppm \<lparr>X = x, Y = y\<rparr> c = Set_PPM ppm x y c"
    using inr by (simp add: SetPixel_def Set_PPM_def)
  show "bindE (Set_PPM ppm x y c) (\<lambda>p. At p x y) = Inr c"
    using inr y x ylt xlt by (simp add: set At_def getPx_def)
qed

theorem pixel_access_bounds_witness:
  "(2 < (0::int) \<or> width canvas2x2 \<le> 2 \<or> 0 < (0::int) \<or> height canvas2x2 \<le> 0) \<and>
   SetPixel canvas2x2 \<lparr>X = 2, Y = 0\<rparr> red = Inr canvas2x2 \<and>
   At canvas2x2 2 0 = Inl IndexOutOfBounds \<and>
   Set_PPM canvas2x2 2 0 red = Inl IndexOutOfBounds \<and>
   wf_ppm canvas2x2 \<and> (0::int) \<le> 1 \<and> 1 < width canvas2x2 \<and> 0 < height canvas2x2 \<and>
   At canvas2x2 1 0 = Inr black \<and>
   Set_PPM canvas2x2 1 0 red = Inr (canvas2x2\<lparr>data := [[black, red], [black, black]]\<rparr>) \<and>
   bindE (Set_PPM canvas2x2 1 0 red) (\<lambda>p. At p 1 0) = Inr red"
proof -
  have out: "2 < (0::int) \<or> width canvas2x2 \<le> 2 \<or> 0 < (0::int) \<or> height canvas2x2 \<le> 0"
    by (simp add: canvas2x2_def)
  have inside: "wf_ppm canvas2x2 \<and> (0::int) \<le> 1 \<and> 1 < width canvas2x2 \<and> (0::int) \<le> 0 \<and>
      0 < height canvas2x2"
    by (simp add: canvas2x2_def wf_ppm_def)
  have d: "data canvas2x2 = [[black, black], [black, black]]"
    by (simp add: canvas2x2_def)
  have outside: "SetPixel canvas2x2 \<lparr>X = 2, Y = 0\<rparr> red = Inr canvas2x2 \<and>
      At canvas2x2 2 0 = Inl IndexOutOfBounds \<and>
      Set_PPM canvas2x2 2 0 red = Inl IndexOutOfBounds"
    using pixel_access_bounds [of 2 canvas2x2 0 red] out by blast
  have rd: "At canvas2x2 1 0 = Inr (data canvas2x2 ! nat 0 ! nat 1)"
    and wr: "Set_PPM canvas2x2 1 0 red =
      Inr (canvas2x2\<lparr>data := (data canvas2x2)[nat 0 := (data canvas2x2 ! nat 0)[nat 1 := red]]\<rparr>)"
    and rb: "bindE (Set_PPM canvas2x2 1 0 red) (\<lambda>p. At p 1 0) = Inr red"
    using pixel_access_bounds [of 1 canvas2x2 0 red] inside by blast+
  have at': "At canvas2x2 1 0 = Inr black"
    using rd by (simp add: d)
  have set': "Set_PPM canvas2x2 1 0 red = Inr (canvas2x2\<lparr>data := [[black, red], [black, black]]\<rparr>)"
    using wr by (simp add: d)
  from out outside inside at' set' rb show ?thesis
    by blast
qed

text \<open>
  C2 as stated fails for \<^verbatim>\<open>Set\<close>: one column right of a 2x2 canvas it does not return
  the buffer, it panics.
\<close>

theorem Set_out_of_range_counterexample:
  "Set_PPM canvas2x2 2 0 red = Inl IndexOutOfBounds \<and> Set_PPM canvas2x2 2 0 red \<noteq> Inr canvas2x2"
  by (simp add: Set_PPM_def canvas2x2_def)

section \<open>\<^verbatim>\<open>Invert\<close> is an involution\<close>

lemma map_prefix_step:
  "n < length xs \<Longrightarrow>
   (map f (take n xs) @ drop n xs)[n := f (xs ! n)] = map f (take (Suc n) xs) @ drop (Suc n) xs"
proof (induction xs arbitrary: n)
  case Nil
  then show ?case by simp
next
  case (Cons a xs)
  then show ?case by (cases n) simp_all
qed

lemma invert_row:
  assumes y: "0 \<le> y" "y < int (length (data ppm))"
    and w: "int (length (data ppm ! nat y)) = w"
  shows "forE [0 .. w - 1] (\<lambda>x. invertAt y x) ppm =
         Inr (ppm\<lparr>data := (data ppm)[nat y := map inverted (data ppm ! nat y)]\<rparr>)"
proof -
  define d where "d = data ppm"
  define row where "row = d ! nat y"
  define F where "F i = ppm\<lparr>data := d[nat y := map inverted (take (nat i) row) @ drop (nat i) row]\<rparr>" for i
  have len: "int (length row) = w" using w by (simp add: row_def d_def)
  have ylt: "nat y < length d" using y by (simp add: d_def nat_less_iff)
  have step: "invertAt y i (F i) = Inr (F (i + 1))" if "0 \<le> i" "i \<le> w - 1" for i
  proof -
    have ilt: "nat i < length row" using that len by (simp add: nat_less_iff)
    have nth: "(map inverted (take (nat i) row) @ drop (nat i) row) ! nat i = row ! nat i"
      using ilt by (simp add: nth_append)
    have suc: "nat (i + 1) = Suc (nat i)" using that by (simp add: nat_add_distrib)
    show ?thesis
      using that y ylt ilt len nth map_prefix_step [OF ilt, of inverted]
      by (simp add: invertAt_def F_def getPx_in_range setPx_in_range d_def [symmetric] suc inverted_def)
  qed
  have "forE [0 .. w - 1] (\<lambda>x. invertAt y x) (F 0) = Inr (F (w - 1 + 1))"
    using len by (intro forE_steps) (simp_all add: step)
  moreover have "F 0 = ppm" by (simp add: F_def row_def d_def)
  moreover have "F (w - 1 + 1) = ppm\<lparr>data := d[nat y := map inverted row]\<rparr>"
    using len by (simp add: F_def)
  ultimately show ?thesis by (simp add: d_def row_def)
qed

lemma invert_rows:
  assumes "wf_ppm ppm"
  shows "Invert ppm = Inr (ppm\<lparr>data := map (map inverted) (data ppm)\<rparr>)"
proof -
  define d where "d = data ppm"
  define G where "G j = ppm\<lparr>data := map (map inverted) (take (nat j) d) @ drop (nat j) d\<rparr>" for j
  have h: "int (length d) = height ppm"
    using assms by (simp add: wf_ppm_def d_def)
  have step: "forE [0 .. width ppm - 1] (\<lambda>x. invertAt j x) (G j) = Inr (G (j + 1))"
    if "0 \<le> j" "j \<le> height ppm - 1" for j
  proof -
    have jlt: "nat j < length d" using that h by (simp add: nat_less_iff)
    have nth: "data (G j) ! nat j = d ! nat j"
      using jlt by (simp add: G_def nth_append)
    have w: "int (length (data (G j) ! nat j)) = width ppm"
      using wf_ppm_row [OF assms, of j] that nth by (simp add: d_def)
    have suc: "nat (j + 1) = Suc (nat j)" using that by (simp add: nat_add_distrib)
    have "forE [0 .. width ppm - 1] (\<lambda>x. invertAt j x) (G j) =
          Inr ((G j)\<lparr>data := (data (G j))[nat j := map inverted (data (G j) ! nat j)]\<rparr>)"
      using that h w by (intro invert_row) (simp_all add: G_def)
    also have "(data (G j))[nat j := map inverted (data (G j) ! nat j)] = data (G (j + 1))"
      unfolding nth using map_prefix_step [OF jlt, of "map inverted"] by (simp add: G_def suc)
    finally show ?thesis by (simp add: G_def)
  qed
  have "0 \<le> height ppm" using h by linarith
  then have "forE [0 .. height ppm - 1] (\<lambda>y. forE [0 .. width ppm - 1] (\<lambda>x. invertAt y x)) (G 0)
        = Inr (G (height ppm - 1 + 1))"
    by (intro forE_steps) (simp_all add: step)
  moreover have "G 0 = ppm" by (simp add: G_def d_def)
  moreover have "G (height ppm - 1 + 1) = ppm\<lparr>data := map (map inverted) d\<rparr>"
    using h by (simp add: G_def)
  ultimately show ?thesis by (simp add: Invert_def d_def)
qed

lemma inverted_twice: "inverted (inverted p) = p"
  by (simp add: inverted_def)

text \<open>
  C10. On a buffer that satisfies the size invariant, \<^verbatim>\<open>Invert\<close> returns a buffer whose
  every channel is \<open>255 - c\<close>, with the same width, height, magic number and maximum
  value, and inverting that buffer gives the original back.
\<close>

theorem Invert_involution:
  assumes "wf_ppm ppm"
  shows "\<exists>p'. Invert ppm = Inr p' \<and> Invert p' = Inr ppm \<and>
           data p' = map (map (\<lambda>p. \<lparr>R = 255 - R p, G = 255 - G p, B = 255 - B p\<rparr>)) (data ppm) \<and>
           width p' = width ppm \<and> height p' = height ppm \<and>
           magicNumber p' = magicNumber ppm \<and> max_ppm p' = max_ppm ppm"
proof -
  define p' where "p' = ppm\<lparr>data := map (map inverted) (data ppm)\<rparr>"
  have wf': "wf_ppm p'"
    using assms by (simp add: wf_ppm_def p'_def list_all_iff)
  have 1: "Invert ppm = Inr p'"
    using invert_rows [OF assms] by (simp add: p'_def)
  have "map (map inverted) (data p') = data ppm"
    by (simp add: p'_def comp_def inverted_twice)
  then have 2: "Invert p' = Inr ppm"
    using invert_rows [OF wf'] by (simp add: p'_def)
  have 3: "inverted = (\<lambda>p. \<lparr>R = 255 - R p, G = 255 - G p, B = 255 - B p\<rparr>)"
    by (rule ext) (simp add: inverted_def)
  show ?thesis
    using 1 2 3 by (auto simp: p'_def)
qed

theorem Invert_involution_witness:
  "wf_ppm canvas2x2 \<and>
   (\<exists>p'. Invert canvas2x2 = Inr p' \<and> Invert p' = Inr canvas2x2 \<and>
      data p' = [[white, white], [white, white]] \<and>
      width p' = 2 \<and> height p' = 2 \<and> magicNumber p' = ''P3'' \<and> max_ppm p' = 255)"
proof -
  have wf: "wf_ppm canvas2x2"
    by (simp add: canvas2x2_def wf_ppm_def)
  show ?thesis
    using wf Invert_involution [OF wf]
    by (simp add: canvas2x2_def black_def white_def)
qed

section \<open>\<^verbatim>\<open>DrawFilledRectangle\<close> at the canvas edge\<close>

text \<open>
  Whenever the bottom edge of the rectangle lies on the bottom edge of the canvas, or its
  right edge on the right edge of the canvas, nothing is painted.
\<close>

lemma DrawFilledRectangle_on_edge:
  assumes "wrap64 (Y p1 + h) = height ppm \<or> wrap64 (X p1 + w) = width ppm"
  shows "DrawFilledRectangle ppm p1 w h color = Inr ppm"
proof -
  have skip: "forE js (\<lambda>y s. Inr s) s = Inr s" for js :: "int list" and s :: PPM
    by (induction js) simp_all
  show ?thesis
    using assms by (auto simp: DrawFilledRectangle_def Let_def skip)
qed

text \<open>
  The sum \<^verbatim>\<open>p1.X+width\<close> is a 64-bit one: with the largest integer as width it is
  negative, and the rectangle that starts in the second column paints nothing.
\<close>

lemma DrawFilledRectangle_overflow:
  "DrawFilledRectangle canvas2x2 \<lparr>X = 1, Y = 0\<rparr> (2 ^ 63 - 1) 1 red = Inr canvas2x2"
  by (simp add: DrawFilledRectangle_def Let_def wrap64_def canvas2x2_def upto.simps)

text \<open>
  C3 at a failing input. A 2x2 rectangle at the origin of a 2x2 canvas covers the whole
  canvas, yet the call paints nothing: \<^verbatim>\<open>p1.Y+height\<close> equals the canvas height, and
  neither the \<^verbatim>\<open><\<close> nor the \<^verbatim>\<open>>\<close> branch is taken. The same holds one row up for the right
  edge. A 1x1 rectangle paints two columns, and a rectangle starting left of the canvas
  aborts on the slice index.
\<close>

theorem DrawFilledRectangle_edge_unfilled:
  "DrawFilledRectangle canvas2x2 \<lparr>X = 0, Y = 0\<rparr> 2 2 red = Inr canvas2x2 \<and>
   DrawFilledRectangle canvas2x2 \<lparr>X = 0, Y = 0\<rparr> 2 1 red = Inr canvas2x2 \<and>
   DrawFilledRectangle canvas2x2 \<lparr>X = 0, Y = 0\<rparr> 1 1 red =
     Inr (canvas2x2\<lparr>data := [[red, red], [black, black]]\<rparr>) \<and>
   DrawFilledRectangle canvas2x2 \<lparr>X = - 1, Y = 0\<rparr> 1 1 red = Inl RuntimeIndexOutOfRange"
  by (simp add: DrawFilledRectangle_def Let_def wrap64_def canvas2x2_def assignPx_def
      setPx_def index_def store_def upto.simps)

section \<open>\<^verbatim>\<open>Save\<close> writes the wire format\<close>

text \<open>
  On a buffer that satisfies the size invariant, whose magic number is one of the two,
  \<^verbatim>\<open>Save\<close> writes the header and the rows as the specification lays them out.
\<close>

lemma Save_encoding:
  assumes wf: "wf_ppm ppm" and magic: "magicNumber ppm = ''P6'' \<or> magicNumber ppm = ''P3''"
  shows "Save ppm = Inr (encoding ppm)"
proof -
  define d where "d = data ppm"
  define m where "m = magicNumber ppm"
  define px where "px = (\<lambda>p. if m = ''P6'' then pixelBytes p else pixelText p)"
  define cell where "cell = (\<lambda>y x out.
      bindE (getPx d y x) (\<lambda>pixel.
        if m = ''P6'' then Inr (out @ [charOf (R pixel), charOf (G pixel), charOf (B pixel)])
        else if m = ''P3'' then
          Inr (out @ formatUint8 (R pixel) @ '' '' @ formatUint8 (G pixel) @ '' '' @
               formatUint8 (B pixel) @ '' '')
        else Inr out))"
  define line where "line = (\<lambda>y out.
      bindE (forE [0 .. width ppm - 1] (cell y) out)
        (\<lambda>out. if m = ''P3'' then Inr (out @ [newline]) else Inr out))"
  have h: "int (length d) = height ppm"
    using wf by (simp add: wf_ppm_def d_def)
  have m: "m = ''P6'' \<or> m = ''P3''" using magic by (simp add: m_def)
  have inner: "forE [0 .. width ppm - 1] (cell y) out = Inr (out @ concat (map px (d ! nat y)))"
    if y: "0 \<le> y" "y \<le> height ppm - 1" for y out
  proof -
    define row where "row = d ! nat y"
    define F where "F i = out @ concat (map px (take (nat i) row))" for i
    have len: "int (length row) = width ppm"
      using wf_ppm_row [OF wf, of y] y by (simp add: row_def d_def)
    have step: "cell y i (F i) = Inr (F (i + 1))" if "0 \<le> i" "i \<le> width ppm - 1" for i
    proof -
      have ilt: "nat i < length row" using that len by (simp add: nat_less_iff)
      have suc: "nat (i + 1) = Suc (nat i)" using that by (simp add: nat_add_distrib)
      have "getPx d y i = Inr (row ! nat i)"
        using y h that len by (intro getPx_in_range [of y d i, folded row_def]) simp_all
      then show ?thesis
        using m ilt by (auto simp: cell_def F_def suc take_Suc_conv_app_nth px_def pixelBytes_def
            pixelText_def)
    qed
    have "forE [0 .. width ppm - 1] (cell y) (F 0) = Inr (F (width ppm - 1 + 1))"
      using len by (intro forE_steps) (simp_all add: step)
    then show ?thesis using len by (simp add: F_def row_def)
  qed
  define H where "H j = header ppm @ concat (map (encodeRow m) (take (nat j) d))" for j
  have outer: "line j (H j) = Inr (H (j + 1))" if j: "0 \<le> j" "j \<le> height ppm - 1" for j
  proof -
    have jlt: "nat j < length d" using j h by (simp add: nat_less_iff)
    have suc: "nat (j + 1) = Suc (nat j)" using j by (simp add: nat_add_distrib)
    have enc: "encodeRow m (d ! nat j) =
        concat (map px (d ! nat j)) @ (if m = ''P3'' then [newline] else [])"
      using m by (auto simp: encodeRow_def px_def)
    show ?thesis
      using jlt by (simp add: line_def inner [OF j] H_def suc take_Suc_conv_app_nth enc)
  qed
  have "0 \<le> height ppm" using h by linarith
  then have loop: "forE [0 .. height ppm - 1] line (H 0) = Inr (H (height ppm - 1 + 1))"
    by (intro forE_steps) (simp_all add: outer)
  have last: "H (height ppm - 1 + 1) = encoding ppm"
    using h by (simp add: H_def encoding_def m_def d_def)
  have save: "Save ppm = forE [0 .. height ppm - 1] line (H 0)"
    unfolding Save_def line_def cell_def H_def m_def d_def header_def using magic by simp
  show ?thesis
    by (simp only: save loop last)
qed

section \<open>Round trip of the textual variant\<close>

lemma isDigit_digitChar: "d < 10 \<Longrightarrow> isDigit (digitChar d)"
  by (simp add: isDigit_def digitChar_def)

lemma digitVal_digitChar: "d < 10 \<Longrightarrow> digitVal (digitChar d) = d"
  by (simp add: digitVal_def digitChar_def)

lemma formatNat_digits: "formatNat n \<noteq> [] \<and> list_all isDigit (formatNat n)"
proof (induction n rule: formatNat.induct)
  case (1 n)
  show ?case
  proof (cases "n < 10")
    case True
    then show ?thesis
      by (subst (1 2) formatNat.simps) (simp add: isDigit_digitChar)
  next
    case False
    then show ?thesis
      using 1 by (subst (1 2) formatNat.simps) (simp add: isDigit_digitChar)
  qed
qed

lemma decimal_snoc: "decimal (s @ [c]) = 10 * decimal s + digitVal c"
  by (simp add: decimal_def)

lemma decimal_formatNat: "decimal (formatNat n) = n"
proof (induction n rule: formatNat.induct)
  case (1 n)
  show ?case
  proof (cases "n < 10")
    case True
    then show ?thesis
      by (subst formatNat.simps) (simp add: decimal_def digitVal_digitChar)
  next
    case False
    then show ?thesis
      using 1 by (subst formatNat.simps) (simp add: decimal_snoc digitVal_digitChar)
  qed
qed

lemma isDigit_not_space: "isDigit c \<Longrightarrow> \<not> isSpace c"
  by (auto simp: isDigit_def isSpace_def)

lemma isDigit_not_special:
  "isDigit c \<Longrightarrow> c \<noteq> CHR ''_'' \<and> c \<noteq> CHR ''+'' \<and> c \<noteq> CHR ''-'' \<and> c \<noteq> newline \<and> c \<noteq> CHR '' ''"
  by (auto simp: isDigit_def newline_def)

lemma takeWhile_digits:
  assumes "list_all isDigit ds" and "r = [] \<or> \<not> (isDigit (hd r) \<or> hd r = CHR ''_'')"
  shows "takeWhile (\<lambda>c. isDigit c \<or> c = CHR ''_'') (ds @ r) = ds"
    and "dropWhile (\<lambda>c. isDigit c \<or> c = CHR ''_'') (ds @ r) = r"
proof -
  have all: "\<forall>c\<in>set ds. isDigit c \<or> c = CHR ''_''"
    using assms(1) by (simp add: list_all_iff)
  have r: "takeWhile (\<lambda>c. isDigit c \<or> c = CHR ''_'') r = []"
    "dropWhile (\<lambda>c. isDigit c \<or> c = CHR ''_'') r = r"
    using assms(2) by (cases r; simp)+
  show "takeWhile (\<lambda>c. isDigit c \<or> c = CHR ''_'') (ds @ r) = ds"
    using all r by (simp add: takeWhile_append2)
  show "dropWhile (\<lambda>c. isDigit c \<or> c = CHR ''_'') (ds @ r) = r"
    using all r by (simp add: dropWhile_append2)
qed

lemma skipSpace_digits:
  assumes "ds \<noteq> []" "list_all isDigit ds"
  shows "skipSpace (ds @ r) = Some (ds @ r)"
proof -
  obtain c cs where ds: "ds = c # cs" using assms(1) by (cases ds) auto
  have "isDigit c" using assms(2) ds by simp
  then have "\<not> isSpace c" "c \<noteq> newline"
    using isDigit_not_space isDigit_not_special by blast+
  then show ?thesis by (simp add: skipSpace_def ds)
qed

lemma no_underscore: "list_all isDigit ds \<Longrightarrow> CHR ''_'' \<notin> set ds"
  using isDigit_not_special by (auto simp: list_all_iff)

lemma scanUint8_formatUint8: "Sscanf_d_uint8 (formatUint8 b) = Some b"
proof -
  define ds where "ds = formatNat (unat b)"
  have d: "ds \<noteq> []" "list_all isDigit ds"
    using formatNat_digits [of "unat b"] by (simp_all add: ds_def)
  have v: "decimal ds = unat b" by (simp add: ds_def decimal_formatNat)
  have "unat b < 2 ^ LENGTH(8)" by (rule unsigned_less)
  then have le: "unat b \<le> 255" by simp
  have sk: "skipSpace ds = Some ds"
    using skipSpace_digits [OF d, of "[]"] by simp
  have tw: "takeWhile (\<lambda>c. isDigit c \<or> c = CHR ''_'') ds = ds"
    "dropWhile (\<lambda>c. isDigit c \<or> c = CHR ''_'') ds = []"
    using takeWhile_digits [OF d(2), of "[]"] by simp_all
  have "scanUint8 ds = Some (b, [])"
    using d(1) no_underscore [OF d(2)] le
    by (simp add: scanUint8_def sk tw v Let_def)
  then show ?thesis
    by (simp add: Sscanf_d_uint8_def formatUint8_def ds_def)
qed

lemma scanInt_formatNat:
  assumes "n < 2 ^ 63" and "r = [] \<or> \<not> (isDigit (hd r) \<or> hd r = CHR ''_'')"
  shows "scanInt (formatNat n @ r) = Some (int n, r)"
proof -
  define ds where "ds = formatNat n"
  have d: "ds \<noteq> []" "list_all isDigit ds"
    using formatNat_digits [of n] by (simp_all add: ds_def)
  obtain c cs where ds: "ds = c # cs" using d(1) by (cases ds) auto
  have "isDigit c" using d(2) ds by simp
  then have sign: "hd (ds @ r) \<noteq> CHR ''+''" "hd (ds @ r) \<noteq> CHR ''-''"
    using isDigit_not_special by (auto simp: ds)
  have v: "decimal ds = n" by (simp add: ds_def decimal_formatNat)
  have "int n < int (2 ^ 63)"
    using assms(1) by (simp only: of_nat_less_iff)
  then have range: "\<not> (int n < - (2 ^ 63) \<or> 2 ^ 63 \<le> int n)"
    by simp
  have nonempty: "ds @ r \<noteq> []" using d(1) by simp
  have "scanInt (ds @ r) = Some (int n, r)"
    using d(1) sign nonempty no_underscore [OF d(2)] range
    by (simp add: scanInt_def skipSpace_digits [OF d] takeWhile_digits [OF d(2) assms(2)] v Let_def
        del: append_is_Nil_conv)
  then show ?thesis by (simp add: ds_def)
qed

lemma Sscanf_dimensions:
  assumes "0 \<le> w" "w < 2 ^ 63" "0 \<le> h" "h < 2 ^ 63"
  shows "Sscanf_d_d (formatInt w @ '' '' @ formatInt h) = Some (w, h)"
proof -
  have w: "nat w < 2 ^ 63" using assms by (simp add: nat_less_iff)
  have h: "nat h < 2 ^ 63" using assms by (simp add: nat_less_iff)
  have sp: "\<not> (isDigit (CHR '' '') \<or> CHR '' '' = CHR ''_'')"
    by (simp add: isDigit_def)
  have 1: "scanInt (formatNat (nat w) @ CHR '' '' # formatNat (nat h)) =
      Some (w, CHR '' '' # formatNat (nat h))"
    using scanInt_formatNat [OF w, of "CHR '' '' # formatNat (nat h)"] sp assms by simp
  have skip: "skipSpace (CHR '' '' # s) = skipSpace s" for s
    by (simp add: skipSpace_def isSpace_def newline_def)
  have "scanInt (CHR '' '' # s) = scanInt s" for s
    by (simp add: scanInt_def skip)
  then have 2: "scanInt (CHR '' '' # formatNat (nat h)) = Some (h, [])"
    using scanInt_formatNat [OF h, of "[]"] assms by simp
  show ?thesis
    using assms by (simp add: Sscanf_d_d_def formatInt_def 1 2 isSpace_def newline_def)
qed

lemma TrimSpace_line:
  assumes "s \<noteq> []" "\<not> isSpace (hd s)" "\<not> isSpace (last s)"
  shows "TrimSpace (s @ [newline]) = s"
proof -
  have 1: "dropWhile isSpace (s @ [newline]) = s @ [newline]"
    using assms by (cases s) simp_all
  have 2: "dropWhile isSpace (rev s) = rev s"
    using assms by (cases "rev s") (simp_all add: last_rev [symmetric] hd_rev)
  have "isSpace newline" by (simp add: isSpace_def newline_def)
  then show ?thesis
    by (simp add: TrimSpace_def 1 2)
qed

lemma fieldsFrom_token:
  assumes "\<forall>c\<in>set tok. \<not> isSpace c"
  shows "fieldsFrom cur (tok @ rest) = fieldsFrom (cur @ tok) rest"
  using assms by (induction tok arbitrary: cur) simp_all

lemma fieldsFrom_tokens:
  assumes "\<forall>t\<in>set toks. t \<noteq> [] \<and> (\<forall>c\<in>set t. \<not> isSpace c)"
  shows "fieldsFrom [] (concat (map (\<lambda>t. t @ '' '') toks) @ [newline]) = toks"
  using assms
proof (induction toks)
  case Nil
  show ?case by (simp add: isSpace_def newline_def)
next
  case (Cons t toks)
  have sp: "isSpace (CHR '' '')" by (simp add: isSpace_def)
  have "fieldsFrom [] (t @ CHR '' '' # concat (map (\<lambda>t. t @ '' '') toks) @ [newline]) =
      fieldsFrom t (CHR '' '' # concat (map (\<lambda>t. t @ '' '') toks) @ [newline])"
    using fieldsFrom_token [of t "[]"] Cons.prems by simp
  also have "\<dots> = t # fieldsFrom [] (concat (map (\<lambda>t. t @ '' '') toks) @ [newline])"
    using Cons.prems sp by simp
  finally show ?case using Cons by simp
qed

lemma formatUint8_token: "formatUint8 b \<noteq> [] \<and> (\<forall>c\<in>set (formatUint8 b). \<not> isSpace c)"
  using formatNat_digits [of "unat b"] isDigit_not_space
  by (auto simp: formatUint8_def list_all_iff)

lemma Fields_row: "Fields (encodeRow ''P3'' row) = concat (map pixelFields row)"
proof -
  have "concat (map pixelText row) = concat (map (\<lambda>t. t @ '' '') (concat (map pixelFields row)))"
    by (induction row) (simp_all add: pixelText_def pixelFields_def)
  moreover have "\<forall>t\<in>set (concat (map pixelFields row)). t \<noteq> [] \<and> (\<forall>c\<in>set t. \<not> isSpace c)"
    using formatUint8_token by (auto simp: pixelFields_def)
  ultimately show ?thesis
    using fieldsFrom_tokens [of "concat (map pixelFields row)"]
    by (simp add: Fields_def encodeRow_def)
qed

lemma concat_triples:
  fixes f g h :: "'a \<Rightarrow> 'b"
  shows "length (concat (map (\<lambda>p. [f p, g p, h p]) row)) = 3 * length row"
    and "x < length row \<Longrightarrow> concat (map (\<lambda>p. [f p, g p, h p]) row) ! (3 * x) = f (row ! x)"
    and "x < length row \<Longrightarrow> concat (map (\<lambda>p. [f p, g p, h p]) row) ! (3 * x + 1) = g (row ! x)"
    and "x < length row \<Longrightarrow> concat (map (\<lambda>p. [f p, g p, h p]) row) ! (3 * x + 2) = h (row ! x)"
proof -
  show "length (concat (map (\<lambda>p. [f p, g p, h p]) row)) = 3 * length row"
    by (induction row) simp_all
  have shift: "concat (map (\<lambda>p. [f p, g p, h p]) (p # ps)) ! (3 * Suc k + i) =
      concat (map (\<lambda>p. [f p, g p, h p]) ps) ! (3 * k + i)" for p ps k i
  proof -
    have "3 * Suc k + i = Suc (Suc (Suc (3 * k + i)))" by simp
    then show ?thesis by (simp only: list.map concat.simps append.simps nth_Cons_Suc)
  qed
  have nth: "x < length row \<Longrightarrow> i < 3 \<Longrightarrow>
      concat (map (\<lambda>p. [f p, g p, h p]) row) ! (3 * x + i) = [f (row ! x), g (row ! x), h (row ! x)] ! i" for i
  proof (induction row arbitrary: x)
    case Nil
    then show ?case by simp
  next
    case (Cons p ps)
    show ?case
    proof (cases x)
      case 0
      have "i = 0 \<or> i = 1 \<or> i = 2" using Cons.prems(2) by auto
      then show ?thesis using 0 by (auto simp: numeral_2_eq_2)
    next
      case (Suc k)
      then show ?thesis
        using Cons shift [of p ps k i] by simp
    qed
  qed
  show "x < length row \<Longrightarrow> concat (map (\<lambda>p. [f p, g p, h p]) row) ! (3 * x) = f (row ! x)"
    using nth [of 0] by simp
  show "x < length row \<Longrightarrow> concat (map (\<lambda>p. [f p, g p, h p]) row) ! (3 * x + 1) = g (row ! x)"
    using nth [of 1] by simp
  show "x < length row \<Longrightarrow> concat (map (\<lambda>p. [f p, g p, h p]) row) ! (3 * x + 2) = h (row ! x)"
    using nth [of 2] by (simp add: numeral_2_eq_2)
qed

lemma concat_pixelFields:
  "length (concat (map pixelFields row)) = 3 * length row"
  "x < length row \<Longrightarrow> concat (map pixelFields row) ! (3 * x) = formatUint8 (R (row ! x))"
  "x < length row \<Longrightarrow> concat (map pixelFields row) ! (3 * x + 1) = formatUint8 (G (row ! x))"
  "x < length row \<Longrightarrow> concat (map pixelFields row) ! (3 * x + 2) = formatUint8 (B (row ! x))"
  unfolding pixelFields_def [abs_def]
  by (simp_all only: concat_triples)

lemma split_at_delim:
  assumes "xs @ ys = l @ d # r" "d \<notin> set l" "d \<in> set xs"
  shows "takeWhile (\<lambda>c. c \<noteq> d) xs = l" and "tl (dropWhile (\<lambda>c. c \<noteq> d) xs) @ ys = r"
proof -
  have t: "takeWhile (\<lambda>c. c \<noteq> d) (l @ d # r) = l"
    using assms(2) by (induction l) auto
  have dr: "dropWhile (\<lambda>c. c \<noteq> d) (l @ d # r) = d # r"
    using assms(2) by (induction l) auto
  have "takeWhile (\<lambda>c. c \<noteq> d) (xs @ ys) = takeWhile (\<lambda>c. c \<noteq> d) xs"
    using assms(3) by (intro takeWhile_append1) simp_all
  then show "takeWhile (\<lambda>c. c \<noteq> d) xs = l"
    using t assms(1) by simp
  have "dropWhile (\<lambda>c. c \<noteq> d) (xs @ ys) = dropWhile (\<lambda>c. c \<noteq> d) xs @ ys"
    using assms(3) by (intro dropWhile_append1) simp_all
  then have e: "dropWhile (\<lambda>c. c \<noteq> d) xs @ ys = d # r"
    using dr assms(1) by simp
  have "dropWhile (\<lambda>c. c \<noteq> d) xs \<noteq> []"
    using assms(3) by (simp add: dropWhile_eq_Nil_conv)
  then show "tl (dropWhile (\<lambda>c. c \<noteq> d) xs) @ ys = r"
    using e by (cases "dropWhile (\<lambda>c. c \<noteq> d) xs") simp_all
qed

lemma prefix_without_delim:
  assumes "xs @ ys = l @ d # r" "d \<notin> set xs"
  shows "\<exists>l2. l = xs @ l2 \<and> ys = l2 @ d # r"
  using assms
proof (induction xs arbitrary: l)
  case Nil
  then show ?case by simp
next
  case (Cons x xs)
  then obtain l' where l: "l = x # l'"
    by (cases l) auto
  then show ?case using Cons by auto
qed

lemma readString_line:
  assumes "\<not> reof rd" "rbuf rd @ rsrc rd = line @ delim # rest" "delim \<notin> set line"
  shows "\<exists>rd'. readString delim acc rd = (acc @ line @ [delim], False, rd') \<and>
           rbuf rd' @ rsrc rd' = rest \<and> \<not> reof rd'"
  using assms
proof (induction delim acc rd arbitrary: line rule: readString.induct)
  case (1 delim acc rd)
  show ?case
  proof (cases "delim \<in> set (rbuf rd)")
    case True
    show ?thesis
      using True "1.prems" split_at_delim [OF "1.prems"(2,3) True]
      by (subst readString.simps) simp
  next
    case nodelim: False
    then obtain l2 where l2: "line = rbuf rd @ l2" "rsrc rd = l2 @ delim # rest"
      using prefix_without_delim [OF "1.prems"(2)] by blast
    have src: "rsrc rd \<noteq> []" using l2 by simp
    show ?thesis
    proof (cases "bufSize \<le> length (rbuf rd)")
      case True
      have "\<exists>rd'. readString delim (acc @ rbuf rd) (rd\<lparr>rbuf := []\<rparr>) =
              ((acc @ rbuf rd) @ l2 @ [delim], False, rd') \<and>
              rbuf rd' @ rsrc rd' = rest \<and> \<not> reof rd'"
        using nodelim "1.prems" True l2 by (intro "1.IH"(1)) simp_all
      then show ?thesis
        using nodelim "1.prems"(1) True l2(1) by (subst readString.simps) simp
    next
      case False
      define n where "n = min (bufSize - length (rbuf rd)) (length (rsrc rd))"
      have "\<exists>rd'. readString delim acc (rd\<lparr>rbuf := rbuf rd @ take n (rsrc rd), rsrc := drop n (rsrc rd)\<rparr>) =
              (acc @ line @ [delim], False, rd') \<and>
              rbuf rd' @ rsrc rd' = rest \<and> \<not> reof rd'"
        using nodelim "1.prems" False src n_def by (intro "1.IH"(3)) simp_all
      then show ?thesis
        using nodelim "1.prems"(1) False src by (subst readString.simps) (simp add: n_def Let_def)
    qed
  qed
qed

lemma take_drop_update:
  assumes "i < length new" "length new = length old"
  shows "(take i new @ drop i old)[i := new ! i] = take (Suc i) new @ drop (Suc i) old"
proof -
  have "drop i old = old ! i # drop (Suc i) old"
    using assms by (simp add: Cons_nth_drop_Suc)
  then have "(take i new @ drop i old)[i := new ! i] = take i new @ new ! i # drop (Suc i) old"
    using assms by (simp add: list_update_append)
  then show ?thesis
    using assms by (simp add: take_Suc_conv_app_nth)
qed

lemma forE_invariant:
  assumes "I lo s" and "lo \<le> hi + 1"
    and "\<And>i s. lo \<le> i \<Longrightarrow> i \<le> hi \<Longrightarrow> I i s \<Longrightarrow> \<exists>s'. f i s = Inr s' \<and> I (i + 1) s'"
  shows "\<exists>s'. forE [lo .. hi] f s = Inr s' \<and> I (hi + 1) s'"
  using assms
proof (induction "nat (hi + 1 - lo)" arbitrary: lo s)
  case 0
  then have "lo = hi + 1" by simp
  then show ?case using "0.prems"(1) by simp
next
  case (Suc n)
  then have le: "lo \<le> hi" by simp
  obtain s1 where s1: "f lo s = Inr s1" "I (lo + 1) s1"
    using Suc.prems(3) [of lo s] Suc.prems(1) le by auto
  have "\<exists>s'. forE [lo + 1 .. hi] f s1 = Inr s' \<and> I (hi + 1) s'"
    using Suc.hyps(2) le s1(2) Suc.prems(3) by (intro Suc.hyps(1)) simp_all
  then show ?case
    using le s1(1) by (simp add: upto_rec1)
qed

lemma pixelText_no_newline: "newline \<notin> set (concat (map pixelText row))"
proof -
  have "newline \<notin> set (formatUint8 b)" for b
    using formatNat_digits [of "unat b"] isDigit_not_special
    by (auto simp: formatUint8_def list_all_iff)
  then show ?thesis
    by (auto simp: pixelText_def newline_def)
qed

lemma readRowP3_row:
  assumes rd: "\<not> reof rd" "rbuf rd @ rsrc rd = encodeRow ''P3'' row @ rest"
    and w: "int (length row) = w" and y: "0 \<le> y" "y < int (length d)"
  shows "\<exists>rd'. readRowP3 w y (rd, d) = Inr (rd', d[nat y := row]) \<and>
           rbuf rd' @ rsrc rd' = rest \<and> \<not> reof rd'"
proof -
  define line where "line = concat (map pixelText row)"
  have enc: "encodeRow ''P3'' row = line @ [newline]"
    by (simp add: encodeRow_def line_def)
  have c: "rbuf rd @ rsrc rd = line @ newline # rest"
    using rd(2) by (simp add: enc)
  have nl: "newline \<notin> set line"
    using pixelText_no_newline by (simp add: line_def)
  obtain rd' where rd': "readString newline [] rd = ([] @ line @ [newline], False, rd')"
      "rbuf rd' @ rsrc rd' = rest" "\<not> reof rd'"
    using readString_line [OF rd(1) c nl, of "[]"] by blast
  define fields where "fields = Fields (line @ [newline])"
  have fields: "fields = concat (map pixelFields row)"
    using Fields_row [of row] by (simp add: fields_def enc)
  define cell where "cell = (\<lambda>x rowData.
      if x * 3 + 2 \<ge> int (length fields) then Inl (FieldIndexOutOfRange y x)
      else
        (case Sscanf_d_uint8 (fields ! nat (x * 3)) of
           None \<Rightarrow> Inl (ErrParsingRed y x)
         | Some r \<Rightarrow>
        (case Sscanf_d_uint8 (fields ! nat (x * 3 + 1)) of
           None \<Rightarrow> Inl (ErrParsingGreen y x)
         | Some g \<Rightarrow>
        (case Sscanf_d_uint8 (fields ! nat (x * 3 + 2)) of
           None \<Rightarrow> Inl (ErrParsingBlue y x)
         | Some b \<Rightarrow> store rowData x \<lparr>R = r, G = g, B = b\<rparr>))))"
  define zeros where "zeros = replicate (nat w) \<lparr>R = 0, G = 0, B = 0\<rparr>"
  define F where "F i = take (nat i) row @ drop (nat i) zeros" for i
  have lz: "length zeros = length row" using w by (auto simp: zeros_def)
  have step: "cell i (F i) = Inr (F (i + 1))" if i: "0 \<le> i" "i \<le> w - 1" for i
  proof -
    have ilt: "nat i < length row" using i w by (simp add: nat_less_iff)
    have suc: "nat (i + 1) = Suc (nat i)" using i by (simp add: nat_add_distrib)
    have idx: "nat (i * 3) = 3 * nat i" "nat (i * 3 + 1) = 3 * nat i + 1"
      "nat (i * 3 + 2) = 3 * nat i + 2"
      using i by (simp_all add: nat_add_distrib nat_mult_distrib)
    have inside: "\<not> i * 3 + 2 \<ge> int (length fields)"
      using i w by (simp add: fields concat_pixelFields(1))
    have px: "\<lparr>R = R (row ! nat i), G = G (row ! nat i), B = B (row ! nat i)\<rparr> = row ! nat i"
      by simp
    have f: "fields ! nat (i * 3) = formatUint8 (R (row ! nat i))"
      "fields ! nat (i * 3 + 1) = formatUint8 (G (row ! nat i))"
      "fields ! nat (i * 3 + 2) = formatUint8 (B (row ! nat i))"
      unfolding idx fields using ilt by (simp_all only: concat_pixelFields)
    have "cell i (F i) = store (F i) i (row ! nat i)"
      unfolding cell_def
      by (simp only: inside f scanUint8_formatUint8 px if_False option.case)
    also have "\<dots> = Inr ((F i)[nat i := row ! nat i])"
      using i ilt lz by (intro store_in_range) (simp_all add: F_def)
    also have "(F i)[nat i := row ! nat i] = F (i + 1)"
      using take_drop_update [OF ilt lz [symmetric]] by (simp add: F_def suc)
    finally show ?thesis .
  qed
  have "forE [0 .. w - 1] cell (F 0) = Inr (F (w - 1 + 1))"
    using w by (intro forE_steps) (simp_all add: step)
  moreover have "F 0 = zeros" by (simp add: F_def)
  moreover have "F (w - 1 + 1) = row" using w lz by (auto simp: F_def)
  ultimately have loop: "forE [0 .. w - 1] cell zeros = Inr row" by simp
  have "readRowP3 w y (rd, d) =
      bindE (forE [0 .. w - 1] cell zeros) (\<lambda>rowData. bindE (store d y rowData) (\<lambda>d'. Inr (rd', d')))"
    unfolding readRowP3_def cell_def fields_def zeros_def
    by (simp add: rd'(1) Let_def)
  then have "readRowP3 w y (rd, d) = Inr (rd', d[nat y := row])"
    using y by (simp add: loop)
  then show ?thesis using rd'(2,3) by blast
qed

lemma formatInt_digits:
  assumes "0 \<le> i"
  shows "formatInt i \<noteq> []" "list_all isDigit (formatInt i)"
  using assms formatNat_digits [of "nat i"] by (simp_all add: formatInt_def)

lemma digits_ends:
  assumes "ds \<noteq> []" "list_all isDigit ds"
  shows "\<not> isSpace (hd ds)" "\<not> isSpace (last ds)" "newline \<notin> set ds"
proof -
  have "isDigit (hd ds)" "isDigit (last ds)"
    using assms by (simp_all add: list_all_iff)
  then show "\<not> isSpace (hd ds)" "\<not> isSpace (last ds)"
    using isDigit_not_space by blast+
  show "newline \<notin> set ds"
    using assms(2) isDigit_not_special by (auto simp: list_all_iff)
qed

text \<open>
  The textual variant round-trips: on a buffer of positive size that satisfies the size
  invariant, decoding what \<^verbatim>\<open>Save\<close> writes gives the buffer back. Each row is read as
  one line, whatever its length.
\<close>

lemma roundtrip_P3:
  assumes wf: "wf_ppm ppm" and magic: "magicNumber ppm = ''P3''"
    and w: "0 < width ppm" "width ppm < 2 ^ 63"
    and h: "0 < height ppm" "height ppm < 2 ^ 63"
  shows "bindE (Save ppm) ReadPPM = Inr ppm"
proof -
  define rows where "rows = data ppm"
  define fw where "fw = formatInt (width ppm)"
  define fh where "fh = formatInt (height ppm)"
  define fm where "fm = formatUint8 (max_ppm ppm)"
  define dims where "dims = fw @ '' '' @ fh"
  define body where "body = concat (map (encodeRow ''P3'') rows)"
  have enc: "encoding ppm = ''P3'' @ newline # dims @ newline # fm @ newline # body"
    by (simp add: encoding_def header_def magic dims_def fw_def fh_def fm_def body_def rows_def)
  have dw: "fw \<noteq> []" "list_all isDigit fw"
    using formatInt_digits [of "width ppm"] w by (simp_all add: fw_def)
  have dh: "fh \<noteq> []" "list_all isDigit fh"
    using formatInt_digits [of "height ppm"] h by (simp_all add: fh_def)
  have dm: "fm \<noteq> []" "list_all isDigit fm"
    using formatNat_digits [of "unat (max_ppm ppm)"] by (simp_all add: fm_def formatUint8_def)
  \<comment> \<open>the magic number\<close>
  have "newline \<notin> set ''P3''" by (simp add: newline_def)
  then obtain rd1 where rd1:
      "readString newline [] \<lparr>rbuf = [], rsrc = encoding ppm, reof = False\<rparr> =
         ([] @ ''P3'' @ [newline], False, rd1)"
      "rbuf rd1 @ rsrc rd1 = dims @ newline # fm @ newline # body" "\<not> reof rd1"
    using readString_line [of "\<lparr>rbuf = [], rsrc = encoding ppm, reof = False\<rparr>" "''P3''" newline
        "dims @ newline # fm @ newline # body" "[]"]
    by (auto simp: enc)
  have "TrimSpace (''P3'' @ [newline]) = ''P3''"
    by (intro TrimSpace_line) (simp_all add: isSpace_def)
  then have t1: "TrimSpace [CHR ''P'', CHR ''3'', newline] = ''P3''"
    by simp
  \<comment> \<open>the dimensions\<close>
  have "newline \<notin> set dims"
    using digits_ends(3) [OF dw] digits_ends(3) [OF dh] by (simp add: dims_def newline_def)
  then obtain rd2 where rd2:
      "readString newline [] rd1 = ([] @ dims @ [newline], False, rd2)"
      "rbuf rd2 @ rsrc rd2 = fm @ newline # body" "\<not> reof rd2"
    using readString_line [OF rd1(3) rd1(2), of "[]"] by blast
  have t2: "TrimSpace (dims @ [newline]) = dims"
    using dw dh digits_ends(1) [OF dw] digits_ends(2) [OF dh]
    by (intro TrimSpace_line) (simp_all add: dims_def)
  have s2: "Sscanf_d_d dims = Some (width ppm, height ppm)"
    using Sscanf_dimensions [of "width ppm" "height ppm"] w h
    by (simp add: dims_def fw_def fh_def)
  \<comment> \<open>the maximum value\<close>
  obtain rd3 where rd3:
      "readString newline [] rd2 = ([] @ fm @ [newline], False, rd3)"
      "rbuf rd3 @ rsrc rd3 = body" "\<not> reof rd3"
    using readString_line [OF rd2(3) rd2(2) digits_ends(3) [OF dm], of "[]"] by blast
  have t3: "TrimSpace (fm @ [newline]) = fm"
    using dm digits_ends(1,2) [OF dm] by (intro TrimSpace_line)
  have s3: "Sscanf_d_uint8 fm = Some (max_ppm ppm)"
    by (simp add: fm_def scanUint8_formatUint8)
  \<comment> \<open>the rows\<close>
  define olds :: "Pixel list list" where "olds = replicate (nat (height ppm)) []"
  define I where "I = (\<lambda>j (st :: reader \<times> Pixel list list).
      \<not> reof (fst st) \<and>
      rbuf (fst st) @ rsrc (fst st) = concat (map (encodeRow ''P3'') (drop (nat j) rows)) \<and>
      snd st = take (nat j) rows @ drop (nat j) olds)"
  have len1: "int (length rows) = height ppm"
    using wf by (simp add: wf_ppm_def rows_def)
  then have "nat (height ppm) = length rows" by linarith
  then have len: "int (length rows) = height ppm" "length olds = length rows"
    using len1 by (simp_all add: olds_def)
  have step: "\<exists>s'. readRowP3 (width ppm) j s = Inr s' \<and> I (j + 1) s'"
    if j: "0 \<le> j" "j \<le> height ppm - 1" and inv: "I j s" for j s
  proof -
    obtain rd d where s: "s = (rd, d)" by (cases s)
    have jlt: "nat j < length rows" using j len by (simp add: nat_less_iff)
    have suc: "nat (j + 1) = Suc (nat j)" using j by (simp add: nat_add_distrib)
    have dr: "drop (nat j) rows = rows ! nat j # drop (Suc (nat j)) rows"
      using jlt by (simp add: Cons_nth_drop_Suc)
    have c: "rbuf rd @ rsrc rd =
        encodeRow ''P3'' (rows ! nat j) @ concat (map (encodeRow ''P3'') (drop (Suc (nat j)) rows))"
      using inv by (simp add: I_def s dr)
    have d: "d = take (nat j) rows @ drop (nat j) olds"
      using inv by (simp add: I_def s)
    have wrow: "int (length (rows ! nat j)) = width ppm"
      using wf_ppm_row [OF wf, of j] j by (simp add: rows_def)
    have yd: "j < int (length d)" using j len by (simp add: d)
    obtain rd' where rd': "readRowP3 (width ppm) j (rd, d) = Inr (rd', d[nat j := rows ! nat j])"
        "rbuf rd' @ rsrc rd' = concat (map (encodeRow ''P3'') (drop (Suc (nat j)) rows))"
        "\<not> reof rd'"
      using readRowP3_row [OF _ c wrow j(1) yd] inv by (auto simp: I_def s)
    have "d[nat j := rows ! nat j] = take (Suc (nat j)) rows @ drop (Suc (nat j)) olds"
      unfolding d using take_drop_update [OF jlt len(2) [symmetric]] .
    then have "I (j + 1) (rd', d[nat j := rows ! nat j])"
      using rd'(2,3) by (simp add: I_def suc)
    then show ?thesis using rd'(1) s by blast
  qed
  have "I 0 (rd3, olds)"
    using rd3 by (simp add: I_def body_def)
  then have "\<exists>s'. forE [0 .. height ppm - 1] (readRowP3 (width ppm)) (rd3, olds) = Inr s' \<and>
      I (height ppm - 1 + 1) s'"
    using h step by (intro forE_invariant) simp_all
  then obtain rd4 where loop:
      "forE [0 .. height ppm - 1] (readRowP3 (width ppm)) (rd3, olds) = Inr (rd4, rows)"
    using len by (auto simp: I_def)
  have "ReadPPM (encoding ppm) =
      Inr \<lparr>data = rows, width = width ppm, height = height ppm, magicNumber = ''P3'',
           max_ppm = max_ppm ppm\<rparr>"
    using w h
    by (simp add: ReadPPM_def rd1(1) t1 rd2(1) t2 s2 rd3(1) t3 s3 loop olds_def [symmetric] Let_def)
  moreover have "\<lparr>data = rows, width = width ppm, height = height ppm, magicNumber = ''P3'',
      max_ppm = max_ppm ppm\<rparr> = ppm"
    using magic by (simp add: rows_def)
  ultimately show ?thesis
    using Save_encoding [OF wf] magic by simp
qed

section \<open>Round trip of the binary variant\<close>

text \<open>
  The binary variant round-trips as long as the whole file fits into the reader's buffer:
  the first \<^verbatim>\<open>ReadString\<close> loads all of it, and every row is then complete in the buffer.
\<close>

lemma byteOf_charOf: "byteOf (charOf b) = b"
proof -
  have "unat b < 2 ^ LENGTH(8)" by (rule unsigned_less)
  then have lt: "unat b < 256" by simp
  have "(of_char (char_of (unat b)) :: uint8) = of_nat (of_char (char_of (unat b)))"
    by (simp only: of_nat_of_char)
  also have "\<dots> = of_nat (unat b)"
    using lt by simp
  finally show ?thesis by (simp add: byteOf_def charOf_def)
qed

lemma readString_loaded:
  assumes "rsrc rd = []" "rbuf rd = line @ delim # rest" "delim \<notin> set line"
  shows "readString delim acc rd = (acc @ line @ [delim], False, rd\<lparr>rbuf := rest\<rparr>)"
proof -
  have mem: "delim \<in> set (rbuf rd)" using assms(2) by simp
  have "rbuf rd @ [] = line @ delim # rest" using assms(2) by simp
  from split_at_delim [OF this assms(3) mem] mem show ?thesis
    by (subst readString.simps) simp
qed

lemma readString_first:
  assumes "file = line @ delim # rest" "delim \<notin> set line" "length file \<le> bufSize"
  shows "readString delim acc \<lparr>rbuf = [], rsrc = file, reof = False\<rparr> =
         (acc @ line @ [delim], False, \<lparr>rbuf = rest, rsrc = [], reof = False\<rparr>)"
proof -
  have ne: "file \<noteq> []" using assms(1) by simp
  have "readString delim acc \<lparr>rbuf = [], rsrc = file, reof = False\<rparr> =
      readString delim acc \<lparr>rbuf = file, rsrc = [], reof = False\<rparr>"
    using ne assms(3) by (subst readString.simps) (simp add: bufSize_def Let_def min_def)
  also have "\<dots> = (acc @ line @ [delim], False, \<lparr>rbuf = file, rsrc = [], reof = False\<rparr>\<lparr>rbuf := rest\<rparr>)"
    using assms(1,2) by (intro readString_loaded) simp_all
  finally show ?thesis by simp
qed

lemma readRowP6_row:
  assumes rd: "rbuf rd = encodeRow ''P6'' row @ rest"
    and w: "int (length row) = w" "0 < w" and y: "0 \<le> y" "y < int (length d)"
  shows "readRowP6 w y (rd, d) = Inr (rd\<lparr>rbuf := rest\<rparr>, d[nat y := row])"
proof -
  define bytes where "bytes = concat (map (\<lambda>p. [charOf (R p), charOf (G p), charOf (B p)]) row)"
  have enc: "encodeRow ''P6'' row = bytes"
    by (simp add: encodeRow_def bytes_def pixelBytes_def [abs_def])
  have lb: "length bytes = 3 * length row"
    unfolding bytes_def by (rule concat_triples(1))
  have n: "nat (w * 3) = length bytes" using w by (simp add: lb nat_mult_distrib)
  have ne: "rbuf rd \<noteq> []" using rd w lb by (auto simp: enc)
  have rdb: "Read_bufio (nat (w * 3)) rd = (bytes, False, rd\<lparr>rbuf := rest\<rparr>)"
    using ne w by (simp add: Read_bufio_def n rd enc)
  define cell where "cell = (\<lambda>x rowData.
      bindE (index bytes (x * 3)) (\<lambda>r.
      bindE (index bytes (x * 3 + 1)) (\<lambda>g.
      bindE (index bytes (x * 3 + 2)) (\<lambda>b.
      store rowData x \<lparr>R = byteOf r, G = byteOf g, B = byteOf b\<rparr>))))"
  define zeros where "zeros = replicate (nat w) \<lparr>R = 0, G = 0, B = 0\<rparr>"
  define F where "F i = take (nat i) row @ drop (nat i) zeros" for i
  have lz: "length zeros = length row" using w by (auto simp: zeros_def)
  have step: "cell i (F i) = Inr (F (i + 1))" if i: "0 \<le> i" "i \<le> w - 1" for i
  proof -
    have ilt: "nat i < length row" using i w by (simp add: nat_less_iff)
    have suc: "nat (i + 1) = Suc (nat i)" using i by (simp add: nat_add_distrib)
    have idx: "nat (i * 3) = 3 * nat i" "nat (i * 3 + 1) = 3 * nat i + 1"
      "nat (i * 3 + 2) = 3 * nat i + 2"
      using i by (simp_all add: nat_add_distrib nat_mult_distrib)
    have rng: "0 \<le> i * 3" "i * 3 + 2 < int (length bytes)"
      using i w by (simp_all add: lb)
    have b: "index bytes (i * 3) = Inr (charOf (R (row ! nat i)))"
      "index bytes (i * 3 + 1) = Inr (charOf (G (row ! nat i)))"
      "index bytes (i * 3 + 2) = Inr (charOf (B (row ! nat i)))"
      using rng concat_triples(2,3,4) [OF ilt, of "\<lambda>p. charOf (R p)" "\<lambda>p. charOf (G p)" "\<lambda>p. charOf (B p)"]
      by (simp_all add: index_def idx bytes_def)
    have px: "\<lparr>R = R (row ! nat i), G = G (row ! nat i), B = B (row ! nat i)\<rparr> = row ! nat i"
      by simp
    have "cell i (F i) = store (F i) i (row ! nat i)"
      unfolding cell_def by (simp only: b bindE_Inr byteOf_charOf px)
    also have "\<dots> = Inr ((F i)[nat i := row ! nat i])"
      using i ilt lz by (intro store_in_range) (simp_all add: F_def)
    also have "(F i)[nat i := row ! nat i] = F (i + 1)"
      using take_drop_update [OF ilt lz [symmetric]] by (simp add: F_def suc)
    finally show ?thesis .
  qed
  have "forE [0 .. w - 1] cell (F 0) = Inr (F (w - 1 + 1))"
    using w by (intro forE_steps) (simp_all add: step)
  moreover have "F 0 = zeros" by (simp add: F_def)
  moreover have "F (w - 1 + 1) = row" using w lz by (auto simp: F_def)
  ultimately have loop: "forE [0 .. w - 1] cell zeros = Inr row" by simp
  have "readRowP6 w y (rd, d) =
      bindE (forE [0 .. w - 1] cell zeros) (\<lambda>rowData. bindE (store d y rowData) (\<lambda>d'. Inr (rd\<lparr>rbuf := rest\<rparr>, d')))"
    unfolding readRowP6_def cell_def zeros_def
    using w by (simp add: rdb lb)
  then show ?thesis
    using y by (simp add: loop)
qed

lemma roundtrip_P6_buffered:
  assumes wf: "wf_ppm ppm" and magic: "magicNumber ppm = ''P6''"
    and w: "0 < width ppm" "width ppm < 2 ^ 63"
    and h: "0 < height ppm" "height ppm < 2 ^ 63"
    and fits: "length (encoding ppm) \<le> bufSize"
  shows "bindE (Save ppm) ReadPPM = Inr ppm"
proof -
  define rows where "rows = data ppm"
  define fw where "fw = formatInt (width ppm)"
  define fh where "fh = formatInt (height ppm)"
  define fm where "fm = formatUint8 (max_ppm ppm)"
  define dims where "dims = fw @ '' '' @ fh"
  define body where "body = concat (map (encodeRow ''P6'') rows)"
  have enc: "encoding ppm = ''P6'' @ newline # dims @ newline # fm @ newline # body"
    by (simp add: encoding_def header_def magic dims_def fw_def fh_def fm_def body_def rows_def)
  have dw: "fw \<noteq> []" "list_all isDigit fw"
    using formatInt_digits [of "width ppm"] w by (simp_all add: fw_def)
  have dh: "fh \<noteq> []" "list_all isDigit fh"
    using formatInt_digits [of "height ppm"] h by (simp_all add: fh_def)
  have dm: "fm \<noteq> []" "list_all isDigit fm"
    using formatNat_digits [of "unat (max_ppm ppm)"] by (simp_all add: fm_def formatUint8_def)
  have "newline \<notin> set ''P6''" by (simp add: newline_def)
  then have rd1: "readString newline [] \<lparr>rbuf = [], rsrc = encoding ppm, reof = False\<rparr> =
      ([] @ ''P6'' @ [newline], False,
       \<lparr>rbuf = dims @ newline # fm @ newline # body, rsrc = [], reof = False\<rparr>)"
    using fits by (intro readString_first) (simp_all add: enc)
  have "TrimSpace (''P6'' @ [newline]) = ''P6''"
    by (intro TrimSpace_line) (simp_all add: isSpace_def)
  then have t1: "TrimSpace [CHR ''P'', CHR ''6'', newline] = ''P6''"
    by simp
  have "newline \<notin> set dims"
    using digits_ends(3) [OF dw] digits_ends(3) [OF dh] by (simp add: dims_def newline_def)
  then have rd2: "readString newline []
        \<lparr>rbuf = dims @ newline # fm @ newline # body, rsrc = [], reof = False\<rparr> =
      ([] @ dims @ [newline], False,
       \<lparr>rbuf = dims @ newline # fm @ newline # body, rsrc = [], reof = False\<rparr>
         \<lparr>rbuf := fm @ newline # body\<rparr>)"
    by (intro readString_loaded) simp_all
  have t2: "TrimSpace (dims @ [newline]) = dims"
    using dw dh digits_ends(1) [OF dw] digits_ends(2) [OF dh]
    by (intro TrimSpace_line) (simp_all add: dims_def)
  have s2: "Sscanf_d_d dims = Some (width ppm, height ppm)"
    using Sscanf_dimensions [of "width ppm" "height ppm"] w h
    by (simp add: dims_def fw_def fh_def)
  have rd3: "readString newline [] \<lparr>rbuf = fm @ newline # body, rsrc = [], reof = False\<rparr> =
      ([] @ fm @ [newline], False,
       \<lparr>rbuf = fm @ newline # body, rsrc = [], reof = False\<rparr>\<lparr>rbuf := body\<rparr>)"
    using digits_ends(3) [OF dm] by (intro readString_loaded) simp_all
  have t3: "TrimSpace (fm @ [newline]) = fm"
    using dm digits_ends(1,2) [OF dm] by (intro TrimSpace_line)
  have s3: "Sscanf_d_uint8 fm = Some (max_ppm ppm)"
    by (simp add: fm_def scanUint8_formatUint8)
  define olds :: "Pixel list list" where "olds = replicate (nat (height ppm)) []"
  define F where "F j = (\<lparr>rbuf = concat (map (encodeRow ''P6'') (drop (nat j) rows)), rsrc = [],
      reof = False\<rparr>, take (nat j) rows @ drop (nat j) olds)" for j
  have len1: "int (length rows) = height ppm"
    using wf by (simp add: wf_ppm_def rows_def)
  then have "nat (height ppm) = length rows" by linarith
  then have len: "int (length rows) = height ppm" "length olds = length rows"
    using len1 by (simp_all add: olds_def)
  have step: "readRowP6 (width ppm) j (F j) = Inr (F (j + 1))"
    if j: "0 \<le> j" "j \<le> height ppm - 1" for j
  proof -
    have jlt: "nat j < length rows" using j len by (simp add: nat_less_iff)
    have suc: "nat (j + 1) = Suc (nat j)" using j by (simp add: nat_add_distrib)
    have dr: "drop (nat j) rows = rows ! nat j # drop (Suc (nat j)) rows"
      using jlt by (simp add: Cons_nth_drop_Suc)
    have wrow: "int (length (rows ! nat j)) = width ppm"
      using wf_ppm_row [OF wf, of j] j by (simp add: rows_def)
    have "readRowP6 (width ppm) j (F j) =
        Inr ((fst (F j))\<lparr>rbuf := concat (map (encodeRow ''P6'') (drop (Suc (nat j)) rows))\<rparr>,
             (snd (F j))[nat j := rows ! nat j])"
      unfolding F_def fst_conv snd_conv
      using wrow w(1) j len by (intro readRowP6_row) (simp_all add: dr)
    moreover have "(snd (F j))[nat j := rows ! nat j] = take (Suc (nat j)) rows @ drop (Suc (nat j)) olds"
      unfolding F_def snd_conv using take_drop_update [OF jlt len(2) [symmetric]] .
    ultimately show ?thesis by (simp add: F_def suc)
  qed
  have "forE [0 .. height ppm - 1] (readRowP6 (width ppm)) (F 0) = Inr (F (height ppm - 1 + 1))"
    using h by (intro forE_steps) (simp_all add: step)
  moreover have "F 0 = (\<lparr>rbuf = body, rsrc = [], reof = False\<rparr>, olds)"
    by (simp add: F_def body_def)
  moreover have "snd (F (height ppm - 1 + 1)) = rows"
    using len by (simp add: F_def)
  ultimately obtain rd4 where loop:
      "forE [0 .. height ppm - 1] (readRowP6 (width ppm)) (\<lparr>rbuf = body, rsrc = [], reof = False\<rparr>, olds) =
       Inr (rd4, rows)"
    by (metis prod.collapse)
  have "ReadPPM (encoding ppm) =
      Inr \<lparr>data = rows, width = width ppm, height = height ppm, magicNumber = ''P6'',
           max_ppm = max_ppm ppm\<rparr>"
    using w h
    by (simp add: ReadPPM_def rd1 t1 rd2 t2 s2 rd3 t3 s3 loop olds_def [symmetric] Let_def)
  moreover have "\<lparr>data = rows, width = width ppm, height = height ppm, magicNumber = ''P6'',
      max_ppm = max_ppm ppm\<rparr> = ppm"
    using magic by (simp add: rows_def)
  ultimately show ?thesis
    using Save_encoding [OF wf] magic by simp
qed

text \<open>A file beyond the buffer size: one row of 1366 black pixels.\<close>

lemma concat_replicate_const: "concat (replicate n [a, a, a]) = replicate (3 * n) a"
proof (induction n)
  case 0
  show ?case by simp
next
  case (Suc n)
  have e: "3 * Suc n = Suc (Suc (Suc (3 * n)))" by simp
  have "replicate (3 * Suc n) a = a # a # a # replicate (3 * n) a"
    by (simp only: e replicate.simps)
  moreover have "concat (replicate (Suc n) [a, a, a]) = a # a # a # concat (replicate n [a, a, a])"
    by simp
  ultimately show ?case using Suc.IH by (simp only:)
qed

lemma charOf_zero: "charOf 0 = CHR 0x00"
  by code_simp

lemma Save_bigP6: "Save bigP6 = Inr (''P6\<newline>1366 1\<newline>255\<newline>'' @ replicate 4098 (CHR 0x00))"
proof -
  have wf: "wf_ppm bigP6" by (simp add: wf_ppm_def bigP6_def)
  have hd: "header bigP6 = ''P6\<newline>1366 1\<newline>255\<newline>''"
    by code_simp
  have "concat (map pixelBytes (replicate 1366 black)) = concat (replicate 1366 [CHR 0x00, CHR 0x00, CHR 0x00])"
    by (simp add: pixelBytes_def black_def charOf_zero)
  then have body: "concat (map pixelBytes (replicate 1366 black)) = replicate 4098 (CHR 0x00)"
    by (simp only: concat_replicate_const) simp
  show ?thesis
    using Save_encoding [OF wf] hd body
    by (simp add: encoding_def encodeRow_def bigP6_def)
qed

lemma ReadPPM_bigP6: "ReadPPM (''P6\<newline>1366 1\<newline>255\<newline>'' @ replicate 4098 (CHR 0x00)) = Inl (ShortRow 0 4098 4082)"
  by (simp add: ReadPPM_def readString.simps bufSize_def newline_def TrimSpace_def isSpace_def
     Sscanf_d_d_def scanInt_def skipSpace_def isDigit_def decimal_def digitVal_def Sscanf_d_uint8_def scanUint8_def
     readRowP6_def Read_bufio_def upto.simps index_def store_def)

text \<open>
  C1 at a failing input. A binary image of one row of 1366 black pixels is saved as 14
  header bytes and 4098 pixel bytes. Decoding that file fills the 4096-byte buffer once;
  after the header 4082 bytes are left in it, \<^verbatim>\<open>reader.Read\<close> returns those 4082 bytes
  for the row of 4098, and \<^verbatim>\<open>ReadPPM\<close> reports an unexpected end of file at row 0.
\<close>

theorem roundtrip_P6_short_read:
  "bindE (Save bigP6) ReadPPM = Inl (ShortRow 0 4098 4082)"
  by (simp only: Save_bigP6 bindE_Inr ReadPPM_bigP6)

section \<open>Comment lines in the header\<close>

text \<open>
  C4 at a failing input. \<^verbatim>\<open>ReadPPM\<close> takes the line after the magic number for the
  dimensions whatever it holds: with a comment line there it fails, while the same file
  without the comment decodes. A comment before the magic number or before the maximum
  value fails as well.
\<close>

theorem ReadPPM_comment_rejected:
  "ReadPPM ''P3\<newline># c\<newline>1 1\<newline>255\<newline>0 0 0 \<newline>'' = Inl InvalidDimensions \<and>
   ReadPPM ''P3\<newline>1 1\<newline>255\<newline>0 0 0 \<newline>'' =
     Inr \<lparr>data = [[\<lparr>R = 0, G = 0, B = 0\<rparr>]], width = 1, height = 1,
          magicNumber = ''P3'', max_ppm = 255\<rparr> \<and>
   ReadPPM ''# c\<newline>P3\<newline>1 1\<newline>255\<newline>0 0 0 \<newline>'' = Inl (InvalidMagicNumber ''# c'') \<and>
   ReadPPM ''P3\<newline>1 1\<newline># c\<newline>255\<newline>0 0 0 \<newline>'' = Inl InvalidMaxValue"
  by code_simp

section \<open>Truncated binary data\<close>

text \<open>The complete file of the scenario decodes to the four pixels.\<close>

lemma ReadPPM_binary_2x2:
  "ReadPPM (''P6\<newline>2 2\<newline>255\<newline>'' @
            [CHR 0xFF, CHR 0x00, CHR 0x00, CHR 0x00, CHR 0xFF, CHR 0x00, CHR 0x00, CHR 0x00,
             CHR 0xFF, CHR 0xFF, CHR 0xFF, CHR 0xFF]) =
     Inr \<lparr>data = [[red, green], [blue, white]], width = 2, height = 2,
          magicNumber = ''P6'', max_ppm = 255\<rparr>"
  by code_simp

text \<open>
  C6. A binary file whose header declares 2x2 pixels at maximum value 255, followed by
  any 11 bytes, is refused: the second row gets 5 of its 6 bytes, and the result is the
  error for row 1, not a buffer.
\<close>

theorem ReadPPM_truncated_binary:
  assumes "length bs = 11"
  shows "ReadPPM (''P6\<newline>2 2\<newline>255\<newline>'' @ bs) = Inl (ShortRow 1 6 5)"
proof -
  have ne: "bs \<noteq> []" using assms by auto
  show ?thesis
    using assms ne
    by (simp add: ReadPPM_def readString.simps bufSize_def newline_def TrimSpace_def isSpace_def
        Sscanf_d_d_def scanInt_def skipSpace_def isDigit_def decimal_def digitVal_def Sscanf_d_uint8_def
        scanUint8_def readRowP6_def Read_bufio_def upto.simps index_def store_def)
qed

theorem ReadPPM_truncated_binary_witness:
  "length [CHR 0xFF, CHR 0x00, CHR 0x00, CHR 0x00, CHR 0xFF, CHR 0x00, CHR 0x00, CHR 0x00,
           CHR 0xFF, CHR 0xFF, CHR 0xFF] = 11 \<and>
   ReadPPM (''P6\<newline>2 2\<newline>255\<newline>'' @
            [CHR 0xFF, CHR 0x00, CHR 0x00, CHR 0x00, CHR 0xFF, CHR 0x00, CHR 0x00, CHR 0x00,
             CHR 0xFF, CHR 0xFF, CHR 0xFF]) = Inl (ShortRow 1 6 5)"
proof -
  have len: "length [CHR 0xFF, CHR 0x00, CHR 0x00, CHR 0x00, CHR 0xFF, CHR 0x00, CHR 0x00,
      CHR 0x00, CHR 0xFF, CHR 0xFF, CHR 0xFF] = 11"
    by simp
  show ?thesis
    using len ReadPPM_truncated_binary [OF len] by blast
qed

section \<open>Rounding to \<^verbatim>\<open>float64\<close>\<close>

lemma bitlen_powi:
  assumes "0 < p"
  shows "2 powi (bitlen p - 1) \<le> (of_int p :: rat)" and "(of_int p :: rat) < 2 powi bitlen p"
proof -
  have b: "1 \<le> bitlen p" using assms by (auto simp: bitlen_alt_def)
  have "2 ^ nat (bitlen p - 1) \<le> p" "p < 2 ^ nat (bitlen p)"
    using bitlen_bounds [OF assms] by auto
  then have "(of_int (2 ^ nat (bitlen p - 1)) :: rat) \<le> of_int p"
    and "(of_int p :: rat) < of_int (2 ^ nat (bitlen p))"
    by (simp_all only: of_int_le_iff of_int_less_iff)
  then show "2 powi (bitlen p - 1) \<le> (of_int p :: rat)" and "(of_int p :: rat) < 2 powi bitlen p"
    using b by (simp_all add: power_int_def)
qed

lemma ilog2_bounds:
  assumes "0 < a"
  shows "2 powi ilog2 a \<le> a" and "a < 2 powi (ilog2 a + 1)"
proof -
  obtain p q where pq: "quotient_of a = (p, q)" by (cases "quotient_of a")
  have q: "0 < q" using pq quotient_of_denom_pos by blast
  have a: "a = of_int p / of_int q" using pq quotient_of_div by blast
  have p: "0 < p" using assms q a by (simp add: zero_less_divide_iff)
  define k where "k = bitlen p - bitlen q"
  have lo: "2 powi (k - 1) \<le> a"
  proof -
    have "2 powi (k - 1) = (2 powi (bitlen p - 1) :: rat) / 2 powi bitlen q"
      by (simp add: k_def power_int_diff)
    also have "\<dots> \<le> of_int p / 2 powi bitlen q"
      using bitlen_powi(1) [OF p] by (simp add: divide_right_mono)
    also have "\<dots> \<le> of_int p / of_int q"
      using bitlen_powi(2) [OF q] p q by (intro divide_left_mono) (simp_all add: less_imp_le)
    finally show ?thesis by (simp add: a)
  qed
  have hi: "a < 2 powi (k + 1)"
  proof -
    have "of_int p / of_int q < (2 powi bitlen p :: rat) / of_int q"
      using bitlen_powi(2) [OF p] q by (simp add: divide_strict_right_mono)
    also have "\<dots> \<le> 2 powi bitlen p / 2 powi (bitlen q - 1)"
      using bitlen_powi(1) [OF q] q by (intro divide_left_mono) simp_all
    also have "\<dots> = 2 powi (k + 1)"
      by (simp add: k_def power_int_diff power_int_add)
    finally show ?thesis by (simp add: a)
  qed
  have il: "ilog2 a = (if 2 powi k \<le> a then k else k - 1)"
    by (simp add: ilog2_def pq k_def)
  show "2 powi ilog2 a \<le> a" using lo by (simp add: il)
  show "a < 2 powi (ilog2 a + 1)" using hi by (auto simp: il not_le)
qed

lemma roundEven_error: "\<bar>of_int (roundEven m) - m\<bar> \<le> 1 / 2"
proof -
  have "of_int \<lfloor>m\<rfloor> \<le> m" "m < of_int \<lfloor>m\<rfloor> + 1" by linarith+
  then show ?thesis
    by (auto simp: roundEven_def Let_def abs_le_iff)
qed

lemma roundEven_nonneg: "0 \<le> m \<Longrightarrow> 0 \<le> roundEven m"
  by (auto simp: roundEven_def Let_def)

lemma roundEven_of_int [simp]: "roundEven (of_int n) = n"
  by (simp add: roundEven_def)

lemma round64_error: "\<bar>round64 r - r\<bar> \<le> \<bar>r\<bar> / 2 ^ 53"
proof (cases "r = 0")
  case True
  then show ?thesis by (simp add: round64_def)
next
  case False
  define e where "e = ilog2 \<bar>r\<bar> - 52"
  define s :: rat where "s = 2 powi e"
  have s: "0 < s" by (simp add: s_def)
  have "2 powi ilog2 \<bar>r\<bar> \<le> \<bar>r\<bar>"
    using ilog2_bounds(1) [of "\<bar>r\<bar>"] False by simp
  moreover have "(2 powi ilog2 \<bar>r\<bar> :: rat) = 2 ^ 52 * s"
    by (simp add: s_def e_def power_int_diff)
  ultimately have big: "2 ^ 52 * s \<le> \<bar>r\<bar>" by simp
  have "round64 r - r = (of_int (roundEven (r / s)) - r / s) * s"
    using False s by (simp add: round64_def Let_def e_def s_def algebra_simps)
  then have "\<bar>round64 r - r\<bar> = \<bar>of_int (roundEven (r / s)) - r / s\<bar> * s"
    using s by (simp add: abs_mult)
  also have "\<dots> \<le> 1 / 2 * s"
    using roundEven_error [of "r / s"] s by (intro mult_right_mono) simp_all
  also have "\<dots> \<le> \<bar>r\<bar> / 2 ^ 53"
    using big by simp
  finally show ?thesis .
qed

lemma round64_nonneg: "0 \<le> r \<Longrightarrow> 0 \<le> round64 r"
  by (auto simp: round64_def Let_def intro!: mult_nonneg_nonneg roundEven_nonneg)

lemma round64_of_int:
  assumes "\<bar>n\<bar> \<le> 2 ^ 53"
  shows "round64 (of_int n) = of_int n"
proof (cases "n = 0")
  case True
  then show ?thesis by (simp add: round64_def)
next
  case False
  define a :: rat where "a = \<bar>of_int n\<bar>"
  define e where "e = ilog2 a - 52"
  have a: "0 < a" "a \<le> 2 ^ 53"
    using False assms by (simp_all add: a_def flip: of_int_abs)
  have "2 powi ilog2 a \<le> a" using ilog2_bounds(1) [OF a(1)] .
  then have "(2 powi ilog2 a :: rat) \<le> 2 powi 53" using a(2) by simp
  then have "ilog2 a \<le> 53"
    by (rule power_int_le_imp_le_exp [rotated]) simp_all
  then have e: "e \<le> 1" by (simp add: e_def)
  have r64: "round64 (of_int n) = of_int (roundEven (of_int n / 2 powi e)) * 2 powi e"
    using False by (simp add: round64_def Let_def e_def a_def)
  show ?thesis
  proof (cases "e \<le> 0")
    case True
    then obtain k where k: "e = - int k"
      by (metis add.inverse_inverse nonneg_int_cases neg_0_le_iff_le)
    have "(of_int n :: rat) / 2 powi e = of_int (n * 2 ^ k)"
      by (simp add: k power_int_minus field_simps)
    then have "roundEven (of_int n / 2 powi e) = n * 2 ^ k"
      by (simp only: roundEven_of_int)
    then have "round64 (of_int n) = of_int (n * 2 ^ k) * 2 powi e"
      by (simp only: r64)
    then show ?thesis
      by (simp add: k power_int_minus field_simps)
  next
    case False
    then have e1: "e = 1" using e by simp
    then have "ilog2 a = 53" by (simp add: e_def)
    then have "2 ^ 53 \<le> a" using ilog2_bounds(1) [OF a(1)] by simp
    then have "a = 2 ^ 53" using a(2) by simp
    then have "(of_int \<bar>n\<bar> :: rat) = of_int (2 ^ 53)"
      by (simp add: a_def)
    then have "\<bar>n\<bar> = 2 ^ 53"
      by (simp only: of_int_eq_iff)
    then have "n = 2 ^ 53 \<or> n = - (2 ^ 53)"
      by linarith
    then show ?thesis
      using e1 by (auto simp: r64 roundEven_def)
  qed
qed

lemma f64_of_int_exact: "\<bar>n\<bar> \<le> 2 ^ 53 \<Longrightarrow> f64_of_int n = Finite (of_int n)"
  by (simp add: f64_of_int_def round64_of_int)

lemma round64_upper:
  assumes "0 \<le> r"
  shows "round64 r \<le> r * (1 + 1 / 2 ^ 53)"
proof -
  have "round64 r - r \<le> \<bar>r\<bar> / 2 ^ 53"
    using round64_error [of r] by linarith
  then show ?thesis using assms by (simp add: algebra_simps)
qed

lemma scale_bound:
  fixes N W X :: rat
  assumes N: "1 \<le> N" "N \<le> 2 ^ 51" and W: "0 \<le> W" and X: "0 \<le> X" "X \<le> N - 1"
  shows "round64 (X * round64 (W / N)) \<le> W"
proof -
  define u :: rat where "u = 1 / 2 ^ 53"
  define q where "q = round64 (W / N)"
  have u: "0 \<le> u" by (simp add: u_def)
  have q0: "0 \<le> q"
    using N W by (simp add: q_def round64_nonneg)
  have q: "q \<le> W / N * (1 + u)"
    using round64_upper [of "W / N"] N W by (simp add: q_def u_def)
  have "round64 (X * q) \<le> X * q * (1 + u)"
    using round64_upper [of "X * q"] X q0 by (simp add: u_def)
  also have "\<dots> \<le> (N - 1) * (W / N * (1 + u)) * (1 + u)"
    using X q q0 u N by (intro mult_right_mono mult_mono) simp_all
  also have "\<dots> = W / N * ((N - 1) * (1 + u) * (1 + u))"
    by (simp only: mult_ac)
  also have "\<dots> \<le> W / N * N"
  proof (intro mult_left_mono)
    have "(N - 1) * (2 * u + u * u) \<le> 2 ^ 51 * (3 * u)"
      using N u by (intro mult_mono) (simp_all add: u_def)
    also have "\<dots> \<le> 1" by (simp add: u_def)
    finally have "(N - 1) * (2 * u + u * u) \<le> 1" .
    moreover have "(N - 1) * (1 + u) * (1 + u) = N - 1 + (N - 1) * (2 * u + u * u)"
      by (simp add: algebra_simps)
    ultimately show "(N - 1) * (1 + u) * (1 + u) \<le> N" by simp
    show "0 \<le> W / N" using N W by simp
  qed
  also have "\<dots> = W" using N by simp
  finally show ?thesis by (simp add: q_def)
qed

lemma source_coordinate:
  assumes x: "0 \<le> x" "x < n" and n: "n \<le> 2 ^ 51" and w: "0 \<le> w" "w \<le> 2 ^ 53"
  shows "\<exists>ox. int_of_f64 (f64_mul (f64_of_int x) (f64_div (f64_of_int w) (f64_of_int n))) = Inr ox
           \<and> 0 \<le> ox \<and> ox \<le> w"
proof -
  define p where "p = round64 (of_int x * round64 (of_int w / of_int n))"
  have xs: "\<bar>x\<bar> \<le> 2 ^ 53" "\<bar>n\<bar> \<le> 2 ^ 53" "\<bar>w\<bar> \<le> 2 ^ 53"
    using x n w by simp_all
  have n0: "(of_int n :: rat) \<noteq> 0" using x by simp
  have val: "f64_mul (f64_of_int x) (f64_div (f64_of_int w) (f64_of_int n)) = Finite p"
    using n0 by (simp add: f64_of_int_exact [OF xs(1)] f64_of_int_exact [OF xs(2)]
        f64_of_int_exact [OF xs(3)] p_def)
  have "1 \<le> n" using x by simp
  then have n1: "(1 :: rat) \<le> of_int n" by simp
  have "(of_int n :: rat) \<le> of_int (2 ^ 51)"
    using n by (simp only: of_int_le_iff)
  then have n2: "(of_int n :: rat) \<le> 2 ^ 51" by simp
  have "x \<le> n - 1" using x by simp
  then have "(of_int x :: rat) \<le> of_int (n - 1)"
    by (simp only: of_int_le_iff)
  then have x1: "(of_int x :: rat) \<le> of_int n - 1" by simp
  have up: "p \<le> of_int w"
    unfolding p_def using n1 n2 x1 x w by (intro scale_bound) simp_all
  have lo: "0 \<le> p"
    unfolding p_def using x w n by (intro round64_nonneg mult_nonneg_nonneg) simp_all
  have fl: "0 \<le> \<lfloor>p\<rfloor>" "\<lfloor>p\<rfloor> \<le> w"
    using lo up by (simp_all add: floor_le_iff le_floor_iff)
  have "(of_int w :: rat) \<le> of_int (2 ^ 53)"
    using w by (simp only: of_int_le_iff)
  then have "p < 2 ^ 63" using up by simp
  then have "int_of_f64 (Finite p) = Inr \<lfloor>p\<rfloor>"
    using lo fl by (simp add: int_of_f64_def)
  then show ?thesis using val fl by simp
qed

section \<open>Resizing\<close>

lemma getPx_uniform:
  assumes "data ppm = replicate (nat (height ppm)) (replicate (nat (width ppm)) c)"
    and "0 \<le> nx" "nx < width ppm" "0 \<le> ny" "ny < height ppm"
  shows "getPx (data ppm) ny nx = Inr c"
proof -
  have "getPx (data ppm) ny nx = Inr (data ppm ! nat ny ! nat nx)"
    using assms by (intro getPx_in_range) simp_all
  then show ?thesis using assms by simp
qed

lemma bindE_return: "bindE m Inr = m"
  by (cases m) simp_all

lemma forE_three:
  "forE [- 1 .. 1] f s = bindE (f (- 1) s) (\<lambda>s1. bindE (f 0 s1) (\<lambda>s2. f 1 s2))"
proof -
  have three: "[- 1 .. 1] = [- 1, 0, 1 :: int]"
    by (simp add: upto.simps)
  have nil: "forE [] f = Inr" by (rule ext) simp
  have cons: "forE (i # js) f = (\<lambda>s. bindE (f i s) (forE js f))" for i js
    by (rule ext) simp
  show ?thesis
    by (simp only: three cons nil bindE_return)
qed

lemma neighbours_uniform:
  assumes u: "data ppm = replicate (nat (height ppm)) (replicate (nat (width ppm)) c)"
    and x: "0 \<le> ox" "ox \<le> width ppm" and y: "0 \<le> oy" "oy \<le> height ppm"
    and pos: "0 < width ppm" "0 < height ppm"
  shows "\<exists>k. 0 < k \<and> findKNearestNeighbors ppm ox oy = Inr (replicate k c)"
proof -
  define cell where "cell = (\<lambda>dy dx neighbors.
       let nx = ox + dx; ny = oy + dy
       in if nx \<ge> 0 \<and> nx < width ppm \<and> ny \<ge> 0 \<and> ny < height ppm
          then bindE (getPx (data ppm) ny nx) (\<lambda>p. Inr (neighbors @ [p]))
          else Inr neighbors)"
  define inb where "inb = (\<lambda>dy dx. 0 \<le> ox + dx \<and> ox + dx < width ppm \<and> 0 \<le> oy + dy \<and> oy + dy < height ppm)"
  define one where "one = (\<lambda>dy dx. if inb dy dx then 1 else (0::nat))"
  have cell: "cell dy dx (replicate k c) = Inr (replicate (k + one dy dx) c)" for dy dx k
    using getPx_uniform [OF u, of "ox + dx" "oy + dy"]
    by (auto simp: cell_def one_def inb_def Let_def replicate_append_same)
  have row: "forE [- 1 .. 1] (cell dy) (replicate k c) =
      Inr (replicate (k + one dy (- 1) + one dy 0 + one dy 1) c)" for dy k
    by (simp only: forE_three cell bindE_Inr)
  have all: "forE [- 1 .. 1] (\<lambda>dy. forE [- 1 .. 1] (cell dy)) (replicate 0 c) =
      Inr (replicate (0 + one (- 1) (- 1) + one (- 1) 0 + one (- 1) 1
                        + one 0 (- 1) + one 0 0 + one 0 1
                        + one 1 (- 1) + one 1 0 + one 1 1) c)"
    by (simp only: forE_three [of "\<lambda>dy. forE [- 1 .. 1] (cell dy)"] row bindE_Inr)
  have "inb 0 0 \<or> inb 0 (- 1) \<or> inb (- 1) 0 \<or> inb (- 1) (- 1)"
    using x y pos by (auto simp: inb_def)
  then have "0 < one 0 0 + one 0 (- 1) + one (- 1) 0 + one (- 1) (- 1)"
    by (auto simp: one_def)
  then have "0 < 0 + one (- 1) (- 1) + one (- 1) 0 + one (- 1) 1
                        + one 0 (- 1) + one 0 0 + one 0 1
                        + one 1 (- 1) + one 1 0 + one 1 1"
    by linarith
  moreover have "findKNearestNeighbors ppm ox oy =
      forE [- 1 .. 1] (\<lambda>dy. forE [- 1 .. 1] (cell dy)) (replicate 0 c)"
    by (simp add: findKNearestNeighbors_def cell_def)
  ultimately show ?thesis using all by metis
qed

lemma totals_uniform:
  "foldl (\<lambda>(totalR, totalG, totalB) pixel.
            (totalR + uint (R pixel), totalG + uint (G pixel), totalB + uint (B pixel)))
         (a, b, d) (replicate k c) =
   (a + int k * uint (R c), b + int k * uint (G c), d + int k * uint (B c))"
  by (induction k arbitrary: a b d) (simp_all add: algebra_simps)

lemma goDiv_multiple: "0 < k \<Longrightarrow> 0 \<le> v \<Longrightarrow> goDiv (k * v) k = v"
  by (cases "v = 0") (simp_all add: goDiv_def sgn_mult abs_mult)

lemma average_uniform:
  assumes "0 < k"
  shows "averageColors ppm (replicate k c) = Inr c"
  using assms
  by (simp add: averageColors_def totals_uniform [of 0 0 0, simplified] goDiv_multiple)

lemma replicate_prefix_step:
  assumes "j < length d"
  shows "(replicate j r @ drop j d)[j := r] = replicate (Suc j) r @ drop (Suc j) d"
proof -
  have "drop j d = d ! j # drop (Suc j) d"
    using assms by (simp add: Cons_nth_drop_Suc)
  then have "(replicate j r @ drop j d)[j := r] = replicate j r @ r # drop (Suc j) d"
    by (simp add: list_update_append)
  then show ?thesis
    by (simp add: replicate_append_same)
qed

lemma fill_row:
  assumes y: "0 \<le> y" "y < int (length d)"
    and len: "int (length (d ! nat y)) = w"
    and body: "\<And>x d'. 0 \<le> x \<Longrightarrow> x < w \<Longrightarrow> f x d' = setPx d' y x c"
  shows "forE [0 .. w - 1] f d = Inr (d[nat y := replicate (nat w) c])"
proof -
  define row where "row = d ! nat y"
  define F where "F i = d[nat y := replicate (nat i) c @ drop (nat i) row]" for i
  have ylt: "nat y < length d" using y by (simp add: nat_less_iff)
  have step: "f i (F i) = Inr (F (i + 1))" if "0 \<le> i" "i \<le> w - 1" for i
  proof -
    have ilt: "nat i < length row" using that len by (simp add: nat_less_iff row_def)
    have suc: "nat (i + 1) = Suc (nat i)" using that by (simp add: nat_add_distrib)
    have "setPx (F i) y i c = Inr ((F i)[nat y := (F i ! nat y)[nat i := c]])"
      using y that ylt ilt len by (intro setPx_in_range) (simp_all add: F_def row_def)
    also have "(F i)[nat y := (F i ! nat y)[nat i := c]] = F (i + 1)"
      using ylt replicate_prefix_step [OF ilt, of c] by (simp add: F_def suc)
    finally show ?thesis using body [of i "F i"] that by simp
  qed
  have "forE [0 .. w - 1] f (F 0) = Inr (F (w - 1 + 1))"
    using len by (intro forE_steps) (simp_all add: step)
  moreover have "F 0 = d" by (simp add: F_def row_def)
  moreover have "F (w - 1 + 1) = d[nat y := replicate (nat w) c]"
    using len by (simp add: F_def row_def)
  ultimately show ?thesis by simp
qed

lemma fill_rows:
  assumes h: "0 \<le> h" and w: "0 \<le> w"
    and body: "\<And>y x d'. 0 \<le> y \<Longrightarrow> y < h \<Longrightarrow> 0 \<le> x \<Longrightarrow> x < w \<Longrightarrow> f y x d' = setPx d' y x c"
  shows "forE [0 .. h - 1] (\<lambda>y. forE [0 .. w - 1] (f y)) (replicate (nat h) (replicate (nat w) z)) =
         Inr (replicate (nat h) (replicate (nat w) c))"
proof -
  define d where "d = replicate (nat h) (replicate (nat w) z)"
  define G where "G j = replicate (nat j) (replicate (nat w) c) @ drop (nat j) d" for j
  have step: "forE [0 .. w - 1] (f j) (G j) = Inr (G (j + 1))" if "0 \<le> j" "j \<le> h - 1" for j
  proof -
    have jlt: "nat j < length d" using that by (simp add: d_def nat_less_iff)
    have suc: "nat (j + 1) = Suc (nat j)" using that by (simp add: nat_add_distrib)
    have lenG: "int (length (G j)) = h" using that h by (simp add: G_def d_def)
    have nth: "G j ! nat j = replicate (nat w) z"
      using jlt by (simp add: G_def nth_append d_def)
    have "forE [0 .. w - 1] (f j) (G j) = Inr ((G j)[nat j := replicate (nat w) c])"
      using that w lenG nth body [of j] by (intro fill_row) simp_all
    also have "(G j)[nat j := replicate (nat w) c] = G (j + 1)"
      using replicate_prefix_step [OF jlt, of "replicate (nat w) c"] by (simp add: G_def suc)
    finally show ?thesis .
  qed
  have "forE [0 .. h - 1] (\<lambda>y. forE [0 .. w - 1] (f y)) (G 0) = Inr (G (h - 1 + 1))"
    using h by (intro forE_steps) (simp_all add: step)
  moreover have "G 0 = d" by (simp add: G_def)
  moreover have "G (h - 1 + 1) = replicate (nat h) (replicate (nat w) c)"
    by (simp add: G_def d_def)
  ultimately show ?thesis by (simp add: d_def)
qed

text \<open>
  C8. On a buffer of positive size whose every pixel is \<open>c\<close>, resizing to any positive
  target size gives the buffer of that size whose every pixel is \<open>c\<close>, and prints
  nothing. The sizes are bounded (source sizes by \<open>2^53\<close>, target sizes by \<open>2^51\<close>), so
  that the conversions to \<^verbatim>\<open>float64\<close> are exact and the rounded source coordinate stays
  within one pixel of the canvas; no buffer that fits in memory is larger.
\<close>

theorem Resize_uniform:
  assumes u: "data ppm = replicate (nat (height ppm)) (replicate (nat (width ppm)) c)"
    and w: "0 < width ppm" "width ppm \<le> 2 ^ 53"
    and h: "0 < height ppm" "height ppm \<le> 2 ^ 53"
    and nw: "0 < newWidth" "newWidth \<le> 2 ^ 51"
    and nh: "0 < newHeight" "newHeight \<le> 2 ^ 51"
  shows "KNearestNeighbors ppm newWidth newHeight =
         Inr ([], ppm\<lparr>data := replicate (nat newHeight) (replicate (nat newWidth) c),
                       width := newWidth, height := newHeight\<rparr>)"
proof -
  define scaleX where "scaleX = f64_div (f64_of_int (width ppm)) (f64_of_int newWidth)"
  define scaleY where "scaleY = f64_div (f64_of_int (height ppm)) (f64_of_int newHeight)"
  define cell where "cell = (\<lambda>y x resizedData.
      bindE (int_of_f64 (f64_mul (f64_of_int x) scaleX)) (\<lambda>originalX.
      bindE (int_of_f64 (f64_mul (f64_of_int y) scaleY)) (\<lambda>originalY.
      bindE (findKNearestNeighbors ppm originalX originalY) (\<lambda>neighbors.
      bindE (averageColors ppm neighbors) (\<lambda>averageColor.
      setPx resizedData y x averageColor)))))"
  have cell: "cell y x d' = setPx d' y x c"
    if yx: "0 \<le> y" "y < newHeight" "0 \<le> x" "x < newWidth" for y x d'
  proof -
    obtain ox where ox: "int_of_f64 (f64_mul (f64_of_int x) scaleX) = Inr ox" "0 \<le> ox" "ox \<le> width ppm"
      using source_coordinate [of x newWidth "width ppm"] yx nw w unfolding scaleX_def by auto
    obtain oy where oy: "int_of_f64 (f64_mul (f64_of_int y) scaleY) = Inr oy" "0 \<le> oy" "oy \<le> height ppm"
      using source_coordinate [of y newHeight "height ppm"] yx nh h unfolding scaleY_def by auto
    obtain k where k: "0 < k" "findKNearestNeighbors ppm ox oy = Inr (replicate k c)"
      using neighbours_uniform [OF u ox(2,3) oy(2,3) w(1) h(1)] by auto
    show ?thesis
      by (simp add: cell_def ox(1) oy(1) k(2) average_uniform [OF k(1)])
  qed
  have "forE [0 .. newHeight - 1] (\<lambda>y. forE [0 .. newWidth - 1] (cell y))
          (replicate (nat newHeight) (replicate (nat newWidth) \<lparr>R = 0, G = 0, B = 0\<rparr>)) =
        Inr (replicate (nat newHeight) (replicate (nat newWidth) c))"
    using nw nh by (intro fill_rows) (simp_all add: cell)
  then show ?thesis
    using nw nh by (simp add: KNearestNeighbors_def cell_def scaleX_def scaleY_def)
qed

theorem Resize_uniform_witness:
  "data (canvas2x2\<lparr>data := [[red, red], [red, red]]\<rparr>) =
     replicate (nat (height canvas2x2)) (replicate (nat (width canvas2x2)) red) \<and>
   0 < width canvas2x2 \<and> width canvas2x2 \<le> 2 ^ 53 \<and>
   0 < height canvas2x2 \<and> height canvas2x2 \<le> 2 ^ 53 \<and>
   (0::int) < 3 \<and> (3::int) \<le> 2 ^ 51 \<and> (0::int) < 1 \<and> (1::int) \<le> 2 ^ 51 \<and>
   KNearestNeighbors (canvas2x2\<lparr>data := [[red, red], [red, red]]\<rparr>) 3 1 =
     Inr ([], \<lparr>data = [[red, red, red]], width = 3, height = 1,
               magicNumber = ''P3'', max_ppm = 255\<rparr>)"
proof -
  define c where "c = canvas2x2\<lparr>data := [[red, red], [red, red]]\<rparr>"
  have d: "width c = width canvas2x2" "height c = height canvas2x2"
    by (simp_all add: c_def)
  have u: "data c = replicate (nat (height c)) (replicate (nat (width c)) red)"
    by (simp add: c_def canvas2x2_def numeral_2_eq_2)
  have s: "0 < width c" "width c \<le> 2 ^ 53" "0 < height c" "height c \<le> 2 ^ 53"
    by (simp_all add: c_def canvas2x2_def)
  have t: "(0::int) < 3" "(3::int) \<le> 2 ^ 51" "(0::int) < 1" "(1::int) \<le> 2 ^ 51"
    by simp_all
  have "KNearestNeighbors c 3 1 =
      Inr ([], c\<lparr>data := replicate (nat 1) (replicate (nat 3) red), width := 3, height := 1\<rparr>)"
    using Resize_uniform [OF u s t] .
  then have "KNearestNeighbors c 3 1 =
      Inr ([], \<lparr>data = [[red, red, red]], width = 3, height = 1,
                magicNumber = ''P3'', max_ppm = 255\<rparr>)"
    by (simp add: c_def canvas2x2_def numeral_3_eq_3)
  with u s t d show ?thesis unfolding c_def by simp
qed

text \<open>
  C5. When a target dimension is not positive the call prints its message and returns
  the buffer it was given: data, width, height and the other fields are untouched.
\<close>

theorem Resize_invalid:
  assumes "newWidth \<le> 0 \<or> newHeight \<le> 0"
  shows "KNearestNeighbors ppm newWidth newHeight = Inr ([''Invalid dimensions for resizing.''], ppm)"
  using assms by (simp add: KNearestNeighbors_def)

theorem Resize_invalid_witness:
  "((0::int) \<le> 0 \<or> (5::int) \<le> 0) \<and>
   KNearestNeighbors canvas2x2 0 5 = Inr ([''Invalid dimensions for resizing.''], canvas2x2)"
proof -
  have a: "(0::int) \<le> 0 \<or> (5::int) \<le> 0" by simp
  show ?thesis
    using a Resize_invalid [OF a, of canvas2x2] by blast
qed

section \<open>64-bit arithmetic within the range\<close>

lemma wrap64_id: "- (2 ^ 63) \<le> n \<Longrightarrow> n < 2 ^ 63 \<Longrightarrow> wrap64 n = n"
  by (simp add: wrap64_def)

lemma wrap64_small: "\<bar>n\<bar> \<le> 2 ^ 62 \<Longrightarrow> wrap64 n = n"
  by (rule wrap64_id) simp_all

section \<open>\<^verbatim>\<open>SetPixel\<close> keeps the size invariant\<close>

lemma SetPixel_wf:
  assumes "wf_ppm ppm"
  shows "\<exists>p'. SetPixel ppm p color = Inr p' \<and> wf_ppm p' \<and>
           width p' = width ppm \<and> height p' = height ppm"
proof (cases "X p \<ge> 0 \<and> X p < width ppm \<and> Y p \<ge> 0 \<and> Y p < height ppm")
  case False
  then show ?thesis using assms by (auto simp: SetPixel_def)
next
  case True
  define d where "d = data ppm"
  define row where "row = (d ! nat (Y p))[nat (X p) := color]"
  have len: "int (length d) = height ppm"
    using assms by (simp add: wf_ppm_def d_def)
  have rows: "\<forall>r \<in> set d. int (length r) = width ppm"
    using assms by (simp add: wf_ppm_def d_def list_all_iff)
  have old: "int (length (d ! nat (Y p))) = width ppm"
    using wf_ppm_row [OF assms, of "Y p"] True by (simp add: d_def)
  have wr: "setPx d (Y p) (X p) color = Inr (d[nat (Y p) := row])"
    unfolding row_def using True len old by (intro setPx_in_range) simp_all
  have "\<forall>r \<in> set (d[nat (Y p) := row]). int (length r) = width ppm"
  proof
    fix r
    assume "r \<in> set (d[nat (Y p) := row])"
    then have "r = row \<or> r \<in> set d"
      using set_update_subset_insert [of d "nat (Y p)" row] by auto
    then show "int (length r) = width ppm"
      using rows old by (auto simp: row_def)
  qed
  then have "wf_ppm (ppm\<lparr>data := d[nat (Y p) := row]\<rparr>)"
    using len by (simp add: wf_ppm_def list_all_iff)
  then show ?thesis
    using True wr by (simp add: SetPixel_def d_def)
qed

section \<open>\<^verbatim>\<open>DrawLine\<close> returns\<close>

text \<open>
  After \<open>a\<close> steps in \<open>x\<close> and \<open>b\<close> steps in \<open>y\<close> the error term of the loop is
  \<open>dx * (1 + b) - dy * (1 + a)\<close>, as long as no operation overflows. With it, no step
  leaves the box between the two end points and every iteration makes a step, so the
  loop reaches the end point. The error term stays between \<open>- 2 * (dx + dy)\<close> and
  \<open>2 * (dx + dy)\<close>, so for end points whose coordinates are at most \<open>2^58\<close> in
  absolute value nothing overflows. On a buffer that satisfies the size invariant
  \<^verbatim>\<open>SetPixel\<close> does not panic, and the loop returns a buffer of the same size.
\<close>

lemma drawLineLoop_returns:
  fixes x0 y0 dx dy sx sy :: int
  assumes dx: "0 \<le> dx" "dx \<le> 2 ^ 59" and dy: "0 \<le> dy" "dy \<le> 2 ^ 59"
    and sx: "sx = 1 \<or> sx = - 1" and sy: "sy = 1 \<or> sy = - 1"
    and x0: "\<bar>x0\<bar> \<le> 2 ^ 58" and y0: "\<bar>y0\<bar> \<le> 2 ^ 58"
  shows "wf_ppm ppm \<Longrightarrow> 0 \<le> a \<Longrightarrow> a \<le> dx \<Longrightarrow> 0 \<le> b \<Longrightarrow> b \<le> dy \<Longrightarrow>
     \<bar>dx * (1 + b) - dy * (1 + a)\<bar> \<le> 2 * (dx + dy) \<Longrightarrow>
     \<exists>p'. drawLineLoop (x0 + sx * dx) (y0 + sy * dy) dx dy sx sy color
           (x0 + sx * a) (y0 + sy * b) (dx * (1 + b) - dy * (1 + a)) ppm = Some (Inr p') \<and>
          wf_ppm p' \<and> width p' = width ppm \<and> height p' = height ppm"
proof (induction "nat ((dx - a) + (dy - b))" arbitrary: a b ppm rule: less_induct)
  case less
  define err where "err = dx * (1 + b) - dy * (1 + a)"
  define xs where "xs \<longleftrightarrow> 2 * err > - dy"
  define ys where "ys \<longleftrightarrow> 2 * err < dx"
  define a' where "a' = (if xs then a + 1 else a)"
  define b' where "b' = (if ys then b + 1 else b)"
  have ab: "0 \<le> a" "a \<le> dx" "0 \<le> b" "b \<le> dy"
    using less.prems by simp_all
  have errb: "\<bar>err\<bar> \<le> 2 * (dx + dy)"
    using less.prems by (simp add: err_def)
  have dxn: "dx \<le> 576460752303423488" and dyn: "dy \<le> 576460752303423488"
    using dx dy by simp_all
  have x0n: "\<bar>x0\<bar> \<le> 288230376151711744" and y0n: "\<bar>y0\<bar> \<le> 288230376151711744"
    using x0 y0 by simp_all
  obtain ppm' where ppm': "SetPixel ppm \<lparr>X = x0 + sx * a, Y = y0 + sy * b\<rparr> color = Inr ppm'"
      "wf_ppm ppm'" "width ppm' = width ppm" "height ppm' = height ppm"
    using SetPixel_wf [OF less.prems(1)] by blast
  show ?case
  proof (cases "a = dx \<and> b = dy")
    case True
    then show ?thesis
      using ppm' by (subst drawLineLoop.simps) simp
  next
    case False
    have expand: "err = dx + dx * b - dy - dy * a"
      by (simp add: err_def algebra_simps)
    have xa: "a < dx" if xs
    proof (rule ccontr)
      assume "\<not> a < dx"
      then have a: "a = dx" using ab by simp
      then have "b \<le> dy - 1" using False ab by simp
      then have "dx * b \<le> dx * (dy - 1)" using dx(1) by (rule mult_left_mono)
      define P Q where "P = dx * b" and "Q = dx * dy"
      have "P \<le> Q - dx"
        using \<open>dx * b \<le> dx * (dy - 1)\<close> by (simp add: P_def Q_def algebra_simps)
      moreover have "2 * (dx + P - dy - Q) > - dy"
        using \<open>xs\<close> by (simp add: xs_def expand a P_def Q_def mult.commute)
      ultimately show False using dy(1) by presburger
    qed
    have yb: "b < dy" if ys
    proof (rule ccontr)
      assume "\<not> b < dy"
      then have b: "b = dy" using ab by simp
      then have "a \<le> dx - 1" using False ab by simp
      then have "dy * a \<le> dy * (dx - 1)" using dy(1) by (rule mult_left_mono)
      define P Q where "P = dy * a" and "Q = dx * dy"
      have "P \<le> Q - dy"
        using \<open>dy * a \<le> dy * (dx - 1)\<close> by (simp add: P_def Q_def algebra_simps)
      moreover have "2 * (dx + Q - dy - P) < dx"
        using \<open>ys\<close> by (simp add: ys_def expand b P_def Q_def mult.commute)
      ultimately show False using dx(1) by presburger
    qed
    have progress: "xs \<or> ys"
    proof (rule ccontr)
      assume "\<not> (xs \<or> ys)"
      then have "2 * err \<le> - dy" "dx \<le> 2 * err" by (simp_all add: xs_def ys_def)
      then have "dx = 0" "dy = 0" using dx(1) dy(1) by linarith+
      then show False using False ab by simp
    qed
    have bounds: "0 \<le> a'" "a' \<le> dx" "0 \<le> b'" "b' \<le> dy"
      using ab xa yb by (auto simp: a'_def b'_def)
    have smaller: "nat ((dx - a') + (dy - b')) < nat ((dx - a) + (dy - b))"
      using progress bounds ab by (auto simp: a'_def b'_def)
    have err': "dx * (1 + b') - dy * (1 + a') =
        (if ys then (if xs then err - dy else err) + dx else (if xs then err - dy else err))"
      by (simp add: a'_def b'_def err_def algebra_simps)
    have errb': "\<bar>dx * (1 + b') - dy * (1 + a')\<bar> \<le> 2 * (dx + dy)"
      unfolding err' using errb dx(1) dy(1) by (auto simp: xs_def ys_def)
    have x': "x0 + sx * a' = (if xs then x0 + sx * a + sx else x0 + sx * a)"
      by (simp add: a'_def algebra_simps)
    have y': "y0 + sy * b' = (if ys then y0 + sy * b + sy else y0 + sy * b)"
      by (simp add: b'_def algebra_simps)
    have w1: "wrap64 (2 * err) = 2 * err"
      using errb dxn dyn dx(1) dy(1) by (intro wrap64_small) simp
    have w2: "wrap64 (- dy) = - dy"
      using dyn dy(1) by (intro wrap64_small) simp
    have w3: "wrap64 (err - dy) = err - dy"
      using errb dxn dyn dx(1) dy(1) by (intro wrap64_small) simp
    have w4: "wrap64 (err - dy + dx) = err - dy + dx" "wrap64 (err + dx) = err + dx"
      using errb dxn dyn dx(1) dy(1) by (intro wrap64_small; simp; linarith)+
    have sa: "\<bar>sx * a\<bar> \<le> 576460752303423488" "\<bar>sy * b\<bar> \<le> 576460752303423488"
      using sx sy ab dxn dyn by auto
    have w5: "wrap64 (x0 + sx * a + sx) = x0 + sx * a + sx"
      using sa(1) x0n sx by (intro wrap64_small) auto
    have w6: "wrap64 (y0 + sy * b + sy) = y0 + sy * b + sy"
      using sa(2) y0n sy by (intro wrap64_small) auto
    obtain p' where p': "drawLineLoop (x0 + sx * dx) (y0 + sy * dy) dx dy sx sy color
         (x0 + sx * a') (y0 + sy * b') (dx * (1 + b') - dy * (1 + a')) ppm' = Some (Inr p')"
        "wf_ppm p'" "width p' = width ppm'" "height p' = height ppm'"
      using less.hyps [OF smaller ppm'(2) bounds errb'] by blast
    have "drawLineLoop (x0 + sx * dx) (y0 + sy * dy) dx dy sx sy color
         (x0 + sx * a) (y0 + sy * b) err ppm =
        drawLineLoop (x0 + sx * dx) (y0 + sy * dy) dx dy sx sy color
         (x0 + sx * a') (y0 + sy * b') (dx * (1 + b') - dy * (1 + a')) ppm'"
      unfolding err' x' y'
      using ppm'(1) False sx sy
      by (subst drawLineLoop.simps) (auto simp: Let_def xs_def ys_def w1 w2 w3 w4 w5 w6)
    then show ?thesis using p' ppm' by (simp add: err_def)
  qed
qed

lemma DrawLine_returns:
  assumes wf: "wf_ppm ppm"
    and p1: "\<bar>X p1\<bar> \<le> 2 ^ 58" "\<bar>Y p1\<bar> \<le> 2 ^ 58"
    and p2: "\<bar>X p2\<bar> \<le> 2 ^ 58" "\<bar>Y p2\<bar> \<le> 2 ^ 58"
  shows "\<exists>p'. DrawLine ppm p1 p2 color = Some (Inr p') \<and> wf_ppm p' \<and>
           width p' = width ppm \<and> height p' = height ppm"
proof -
  define dx where "dx = \<bar>X p2 - X p1\<bar>"
  define dy where "dy = \<bar>Y p2 - Y p1\<bar>"
  define sx :: int where "sx = (if X p1 < X p2 then 1 else - 1)"
  define sy :: int where "sy = (if Y p1 < Y p2 then 1 else - 1)"
  have d: "0 \<le> dx" "dx \<le> 2 ^ 59" "0 \<le> dy" "dy \<le> 2 ^ 59"
    using p1 p2 by (simp_all add: dx_def dy_def)
  have s: "sx = 1 \<or> sx = - 1" "sy = 1 \<or> sy = - 1" by (simp_all add: sx_def sy_def)
  have tx: "DrawLinetool (wrap64 (X p2 - X p1)) = dx"
  proof -
    have "wrap64 (X p2 - X p1) = X p2 - X p1"
      using p1 p2 by (intro wrap64_small) simp
    moreover have "wrap64 (- (X p2 - X p1)) = - (X p2 - X p1)"
      using p1 p2 by (intro wrap64_small) simp
    ultimately show ?thesis by (simp add: DrawLinetool_def dx_def)
  qed
  have ty: "DrawLinetool (wrap64 (Y p2 - Y p1)) = dy"
  proof -
    have "wrap64 (Y p2 - Y p1) = Y p2 - Y p1"
      using p1 p2 by (intro wrap64_small) simp
    moreover have "wrap64 (- (Y p2 - Y p1)) = - (Y p2 - Y p1)"
      using p1 p2 by (intro wrap64_small) simp
    ultimately show ?thesis by (simp add: DrawLinetool_def dy_def)
  qed
  have te: "wrap64 (dx - dy) = dx - dy"
    using d by (intro wrap64_small) simp
  have x2: "X p2 = X p1 + sx * dx" by (simp add: sx_def dx_def)
  have y2: "Y p2 = Y p1 + sy * dy" by (simp add: sy_def dy_def)
  have "\<exists>p'. drawLineLoop (X p1 + sx * dx) (Y p1 + sy * dy) dx dy sx sy color
           (X p1 + sx * 0) (Y p1 + sy * 0) (dx * (1 + 0) - dy * (1 + 0)) ppm = Some (Inr p') \<and>
          wf_ppm p' \<and> width p' = width ppm \<and> height p' = height ppm"
    using d wf by (intro drawLineLoop_returns [OF d s p1]) simp_all
  then show ?thesis
    by (simp add: DrawLine_def Let_def tx ty te x2 [symmetric] y2 [symmetric]
        sx_def [symmetric] sy_def [symmetric])
qed

lemma DrawTriangle_returns:
  assumes wf: "wf_ppm ppm"
    and p1: "\<bar>X p1\<bar> \<le> 2 ^ 58" "\<bar>Y p1\<bar> \<le> 2 ^ 58"
    and p2: "\<bar>X p2\<bar> \<le> 2 ^ 58" "\<bar>Y p2\<bar> \<le> 2 ^ 58"
    and p3: "\<bar>X p3\<bar> \<le> 2 ^ 58" "\<bar>Y p3\<bar> \<le> 2 ^ 58"
  shows "\<exists>p'. DrawTriangle ppm p1 p2 p3 color = Some (Inr p') \<and> wf_ppm p' \<and>
           width p' = width ppm \<and> height p' = height ppm"
proof -
  obtain q1 where q1: "DrawLine ppm p1 p2 color = Some (Inr q1)" "wf_ppm q1"
      "width q1 = width ppm" "height q1 = height ppm"
    using DrawLine_returns [OF wf p1 p2] by blast
  obtain q2 where q2: "DrawLine q1 p2 p3 color = Some (Inr q2)" "wf_ppm q2"
      "width q2 = width q1" "height q2 = height q1"
    using DrawLine_returns [OF q1(2) p2 p3] by blast
  obtain q3 where q3: "DrawLine q2 p3 p1 color = Some (Inr q3)" "wf_ppm q3"
      "width q3 = width q2" "height q3 = height q2"
    using DrawLine_returns [OF q2(2) p3 p1] by blast
  show ?thesis
    using q1 q2 q3 by (simp add: DrawTriangle_def bindOE_def)
qed

section \<open>\<^verbatim>\<open>DrawLine\<close> at the 64-bit boundary\<close>

text \<open>
  An iteration in which neither branch is taken changes nothing but the pixel it has set
  already, so the loop never ends from there. This is what happens on the line from the
  origin to the point whose \<open>X\<close> is the smallest integer \<open>m\<close>: the difference
  \<^verbatim>\<open>x2 - x1\<close> is \<open>m\<close>, its negation in \<^verbatim>\<open>DrawLinetool\<close> overflows and is \<open>m\<close> again, so
  \<open>dx\<close> and \<open>err\<close> are \<open>m\<close>, and the product \<^verbatim>\<open>2 * err\<close> overflows to 0, which is neither
  above \<open>- dy = 0\<close> nor below \<open>dx\<close>.
\<close>

lemma drawLineLoop_stuck:
  assumes "drawLineLoop x2 y2 dx dy sx sy color x1 y1 err ppm = Some r"
  shows "\<not> (wf_ppm ppm \<and> (x1 \<noteq> x2 \<or> y1 \<noteq> y2) \<and>
            wrap64 (2 * err) \<le> wrap64 (- dy) \<and> dx \<le> wrap64 (2 * err))"
proof (rule drawLineLoop.raw_induct [where P = "\<lambda>x2 y2 dx dy sx sy color x1 y1 err ppm r.
    \<not> (wf_ppm ppm \<and> (x1 \<noteq> x2 \<or> y1 \<noteq> y2) \<and>
       wrap64 (2 * err) \<le> wrap64 (- dy) \<and> dx \<le> wrap64 (2 * err))", OF _ assms])
  fix f x2 y2 dx dy sx sy color x1 y1 err ppm r
  assume IH: "\<And>x2 y2 dx dy sx sy color x1 y1 err ppm r.
      f x2 y2 dx dy sx sy color x1 y1 err ppm = Some r \<Longrightarrow>
      \<not> (wf_ppm ppm \<and> (x1 \<noteq> x2 \<or> y1 \<noteq> y2) \<and>
         wrap64 (2 * err) \<le> wrap64 (- dy) \<and> dx \<le> wrap64 (2 * err))"
    and body: "(case SetPixel ppm \<lparr>X = x1, Y = y1\<rparr> color of
        Inl e \<Rightarrow> Some (Inl e)
      | Inr ppm' \<Rightarrow>
          if x1 = x2 \<and> y1 = y2 then Some (Inr ppm')
          else
            let e2 = wrap64 (2 * err);
                err1 = (if e2 > wrap64 (- dy) then wrap64 (err - dy) else err);
                x1' = (if e2 > wrap64 (- dy) then wrap64 (x1 + sx) else x1);
                err2 = (if e2 < dx then wrap64 (err1 + dx) else err1);
                y1' = (if e2 < dx then wrap64 (y1 + sy) else y1)
            in f x2 y2 dx dy sx sy color x1' y1' err2 ppm') = Some r"
  show "\<not> (wf_ppm ppm \<and> (x1 \<noteq> x2 \<or> y1 \<noteq> y2) \<and>
         wrap64 (2 * err) \<le> wrap64 (- dy) \<and> dx \<le> wrap64 (2 * err))"
  proof
    assume st: "wf_ppm ppm \<and> (x1 \<noteq> x2 \<or> y1 \<noteq> y2) \<and>
         wrap64 (2 * err) \<le> wrap64 (- dy) \<and> dx \<le> wrap64 (2 * err)"
    obtain ppm' where ppm': "SetPixel ppm \<lparr>X = x1, Y = y1\<rparr> color = Inr ppm'" "wf_ppm ppm'"
      using SetPixel_wf st by blast
    have "f x2 y2 dx dy sx sy color x1 y1 err ppm' = Some r"
      using body st ppm'(1) by (auto simp: Let_def)
    then show False using IH ppm'(2) st by blast
  qed
qed

lemma DrawLine_never_returns:
  assumes "wf_ppm ppm" and "m = - (2 ^ 63)"
  shows "DrawLine ppm \<lparr>X = 0, Y = 0\<rparr> \<lparr>X = m, Y = 0\<rparr> color = None"
proof (rule ccontr)
  have m: "m < 0" "wrap64 m = m" "wrap64 (- m) = m" "wrap64 (2 * m) = 0" "wrap64 0 = 0"
    using assms(2) by (simp_all add: wrap64_def)
  assume "DrawLine ppm \<lparr>X = 0, Y = 0\<rparr> \<lparr>X = m, Y = 0\<rparr> color \<noteq> None"
  then obtain r where "DrawLine ppm \<lparr>X = 0, Y = 0\<rparr> \<lparr>X = m, Y = 0\<rparr> color = Some r"
    by blast
  then have "drawLineLoop m 0 m 0 (- 1) (- 1) color 0 0 m ppm = Some r"
    using m(1) by (simp add: DrawLine_def DrawLinetool_def Let_def m(2-5))
  from drawLineLoop_stuck [OF this] show False
    using assms(1) m(1) by (simp add: m(2-5))
qed

section \<open>Koch snowflake of depth 0\<close>

lemma KochSnowflake_zero: "KochSnowflake ppm 0 point1 point2 color = DrawLine ppm point1 point2 color"
  by (subst KochSnowflake.simps) simp

text \<open>
  With depth 0 each of the three calls of \<^verbatim>\<open>KochSnowflake\<close> is one \<^verbatim>\<open>DrawLine\<close>, so
  \<^verbatim>\<open>DrawKochSnowflake\<close> is \<^verbatim>\<open>DrawTriangle\<close> on the three vertices it computes, whatever
  the arguments are.
\<close>

lemma DrawKochSnowflake_zero_unfold:
  "DrawKochSnowflake ppm 0 start sz color =
     bindOE (Some (int_of_f64 (f64_div (f64_mul sqrt3 (f64_of_int sz)) (Finite 2)))) (\<lambda>height.
       DrawTriangle ppm start \<lparr>X = wrap64 (X start + sz), Y = Y start\<rparr>
         \<lparr>X = wrap64 (X start + goDiv sz 2), Y = wrap64 (Y start + height)\<rparr> color)"
  by (simp add: DrawKochSnowflake_def DrawTriangle_def KochSnowflake_zero Let_def)

text \<open>
  The height \<^verbatim>\<open>int(math.Sqrt(3) * float64(size) / 2)\<close> of the base triangle is defined
  for every 64-bit size, and at most nine tenths of the size: each of the three roundings
  adds less than a hundredth, and half the square root of 3 is below \<open>0.87\<close>.
\<close>

lemma round64_abs: "\<bar>round64 r\<bar> \<le> \<bar>r\<bar> * (101 / 100)"
proof -
  have "\<bar>round64 r\<bar> \<le> \<bar>r\<bar> + \<bar>round64 r - r\<bar>" by simp
  also have "\<dots> \<le> \<bar>r\<bar> + \<bar>r\<bar> / 2 ^ 53"
    using round64_error [of r] by simp
  also have "\<dots> \<le> \<bar>r\<bar> * (101 / 100)"
    by simp
  finally show ?thesis .
qed

lemma snowflake_height:
  assumes "\<bar>sz\<bar> \<le> 2 ^ 63"
  shows "\<exists>h. int_of_f64 (f64_div (f64_mul sqrt3 (f64_of_int sz)) (Finite 2)) = Inr h \<and>
           10 * \<bar>h\<bar> \<le> 9 * \<bar>sz\<bar>"
proof -
  define s :: rat where "s = 3900231685776981 / 2251799813685248"
  define a where "a = round64 (of_int sz)"
  define b where "b = round64 (s * a)"
  define c where "c = round64 (b / 2)"
  define z :: rat where "z = \<bar>of_int sz\<bar>"
  have z: "0 \<le> z" by (simp add: z_def)
  have a: "\<bar>a\<bar> \<le> z * (101 / 100)"
    unfolding a_def z_def by (rule round64_abs)
  have "\<bar>b\<bar> \<le> \<bar>s * a\<bar> * (101 / 100)"
    unfolding b_def by (rule round64_abs)
  also have "\<bar>s * a\<bar> = s * \<bar>a\<bar>"
    by (simp add: s_def abs_mult)
  also have "s * \<bar>a\<bar> * (101 / 100) \<le> s * (z * (101 / 100)) * (101 / 100)"
    using a by (simp add: s_def)
  finally have b: "\<bar>b\<bar> \<le> s * (z * (101 / 100)) * (101 / 100)" .
  have "\<bar>c\<bar> \<le> \<bar>b / 2\<bar> * (101 / 100)"
    unfolding c_def by (rule round64_abs)
  also have "\<dots> \<le> (s * (z * (101 / 100)) * (101 / 100)) / 2 * (101 / 100)"
    using b by simp
  also have "\<dots> = z * (s * 1030301 / 2000000)"
    by simp
  also have "\<dots> \<le> z * (9 / 10)"
    using z by (intro mult_left_mono) (simp_all add: s_def)
  finally have c: "10 * \<bar>c\<bar> \<le> 9 * z" by simp
  define t where "t = (if 0 \<le> c then \<lfloor>c\<rfloor> else \<lceil>c\<rceil>)"
  have tc: "(of_int \<bar>t\<bar> :: rat) \<le> \<bar>c\<bar>"
  proof (cases "0 \<le> c")
    case True
    then have "0 \<le> t" "of_int t \<le> c" by (simp_all add: t_def)
    then show ?thesis using True by simp
  next
    case False
    then have "t \<le> 0" "c \<le> of_int t" by (simp_all add: t_def ceiling_le_iff)
    then show ?thesis using False by simp
  qed
  have "(of_int (10 * \<bar>t\<bar>) :: rat) \<le> of_int (9 * \<bar>sz\<bar>)"
    using tc c by (simp add: z_def)
  then have t: "10 * \<bar>t\<bar> \<le> 9 * \<bar>sz\<bar>"
    by (simp only: of_int_le_iff)
  have range: "- (2 ^ 63) \<le> t \<and> t < 2 ^ 63"
    using t assms by simp linarith
  have val: "f64_div (f64_mul sqrt3 (f64_of_int sz)) (Finite 2) = Finite c"
    by (simp add: f64_of_int_def sqrt3_def c_def b_def a_def s_def)
  have "int_of_f64 (Finite c) =
      (if - (2 ^ 63) \<le> t \<and> t < 2 ^ 63 then Inr t else Inl FloatConversionUndefined)"
    by (simp add: int_of_f64_def Let_def t_def)
  then have "int_of_f64 (f64_div (f64_mul sqrt3 (f64_of_int sz)) (Finite 2)) = Inr t"
    using range val by simp
  then show ?thesis using t by blast
qed

text \<open>
  With the smallest integer as its size the first of the three lines is the one above,
  and \<^verbatim>\<open>DrawKochSnowflake\<close> never returns, as \<^verbatim>\<open>DrawTriangle\<close> on the same vertices does
  not.
\<close>

lemma DrawKochSnowflake_never_returns:
  assumes "wf_ppm ppm" and "sz = - (2 ^ 63)"
  shows "DrawKochSnowflake ppm 0 \<lparr>X = 0, Y = 0\<rparr> sz color = None"
proof -
  have "\<bar>sz\<bar> \<le> 2 ^ 63"
    using assms(2) by simp
  then obtain h where h: "int_of_f64 (f64_div (f64_mul sqrt3 (f64_of_int sz)) (Finite 2)) = Inr h"
    using snowflake_height [of sz] by blast
  have "wrap64 (0 + sz) = sz"
    using assms(2) by (simp add: wrap64_def)
  then show ?thesis
    using DrawLine_never_returns [OF assms, of color]
    by (simp add: DrawKochSnowflake_zero_unfold h DrawTriangle_def bindOE_def)
qed

text \<open>
  C9. For every 64-bit size the height \<open>h\<close> of the base triangle is defined, and
  \<^verbatim>\<open>DrawKochSnowflake\<close> with depth 0 is \<^verbatim>\<open>DrawTriangle\<close> on the three vertices of the base
  triangle: \<open>start\<close>, the point \<open>size\<close> to its right, and the apex at half the size
  and at the height \<open>h\<close>; the two calls run the same three \<^verbatim>\<open>DrawLine\<close> calls in the same
  order. For a buffer that satisfies the size invariant, and a start point and a size of
  at most \<open>2^57\<close> in absolute value, no sum overflows, both calls return, and they leave
  the same buffer.
\<close>

theorem DrawKochSnowflake_depth_zero:
  assumes "- (2 ^ 63) \<le> sz" and "sz < 2 ^ 63"
  shows "\<exists>h.
     int_of_f64 (f64_div (f64_mul sqrt3 (f64_of_int sz)) (Finite 2)) = Inr h \<and>
     DrawKochSnowflake ppm 0 start sz color =
       DrawTriangle ppm start \<lparr>X = wrap64 (X start + sz), Y = Y start\<rparr>
         \<lparr>X = wrap64 (X start + goDiv sz 2), Y = wrap64 (Y start + h)\<rparr> color \<and>
     (wf_ppm ppm \<and> \<bar>X start\<bar> \<le> 2 ^ 57 \<and> \<bar>Y start\<bar> \<le> 2 ^ 57 \<and> \<bar>sz\<bar> \<le> 2 ^ 57 \<longrightarrow>
        (\<exists>p'. DrawKochSnowflake ppm 0 start sz color = Some (Inr p') \<and>
              DrawTriangle ppm start \<lparr>X = X start + sz, Y = Y start\<rparr>
                \<lparr>X = X start + goDiv sz 2, Y = Y start + h\<rparr> color = Some (Inr p') \<and>
              wf_ppm p' \<and> width p' = width ppm \<and> height p' = height ppm))"
proof -
  have "\<bar>sz\<bar> \<le> 2 ^ 63" using assms by simp
  then obtain h where h: "int_of_f64 (f64_div (f64_mul sqrt3 (f64_of_int sz)) (Finite 2)) = Inr h"
      "10 * \<bar>h\<bar> \<le> 9 * \<bar>sz\<bar>"
    using snowflake_height [of sz] by blast
  have eq: "DrawKochSnowflake ppm 0 start sz color =
       DrawTriangle ppm start \<lparr>X = wrap64 (X start + sz), Y = Y start\<rparr>
         \<lparr>X = wrap64 (X start + goDiv sz 2), Y = wrap64 (Y start + h)\<rparr> color"
    by (simp add: DrawKochSnowflake_zero_unfold h(1) bindOE_def)
  have ret: "\<exists>p'. DrawKochSnowflake ppm 0 start sz color = Some (Inr p') \<and>
              DrawTriangle ppm start \<lparr>X = X start + sz, Y = Y start\<rparr>
                \<lparr>X = X start + goDiv sz 2, Y = Y start + h\<rparr> color = Some (Inr p') \<and>
              wf_ppm p' \<and> width p' = width ppm \<and> height p' = height ppm"
    if wf: "wf_ppm ppm" and b: "\<bar>X start\<bar> \<le> 2 ^ 57" "\<bar>Y start\<bar> \<le> 2 ^ 57" "\<bar>sz\<bar> \<le> 2 ^ 57"
  proof -
    have hs: "\<bar>h\<bar> \<le> \<bar>sz\<bar>" using h(2) by linarith
    have half: "\<bar>goDiv sz 2\<bar> \<le> \<bar>sz\<bar>"
      by (simp add: goDiv_def abs_mult sgn_if) presburger
    have w: "wrap64 (X start + sz) = X start + sz"
        "wrap64 (X start + goDiv sz 2) = X start + goDiv sz 2"
        "wrap64 (Y start + h) = Y start + h"
      using b hs half by (intro wrap64_small; simp)+
    have v: "\<bar>X start + sz\<bar> \<le> 2 ^ 58" "\<bar>X start + goDiv sz 2\<bar> \<le> 2 ^ 58"
        "\<bar>Y start + h\<bar> \<le> 2 ^ 58" "\<bar>X start\<bar> \<le> 2 ^ 58" "\<bar>Y start\<bar> \<le> 2 ^ 58"
      using b hs half by simp_all
    obtain p' where p': "DrawTriangle ppm start \<lparr>X = X start + sz, Y = Y start\<rparr>
         \<lparr>X = X start + goDiv sz 2, Y = Y start + h\<rparr> color = Some (Inr p')"
        "wf_ppm p'" "width p' = width ppm" "height p' = height ppm"
      using DrawTriangle_returns [OF wf, of start "\<lparr>X = X start + sz, Y = Y start\<rparr>"
          "\<lparr>X = X start + goDiv sz 2, Y = Y start + h\<rparr>" color] v
      by auto
    have "DrawKochSnowflake ppm 0 start sz color = Some (Inr p')"
      using p'(1) by (simp add: eq w)
    then show ?thesis using p' by blast
  qed
  show ?thesis using h(1) eq ret by blast
qed

text \<open>
  On the 2x2 canvas, with the origin as start and the size 2, the height is 1 and the
  vertices are (0,0), (2,0) and (1,1): both calls paint the top row and the pixel (1,1).
\<close>

theorem DrawKochSnowflake_depth_zero_witness:
  "wf_ppm canvas2x2 \<and>
   int_of_f64 (f64_div (f64_mul sqrt3 (f64_of_int 2)) (Finite 2)) = Inr 1 \<and>
   DrawTriangle canvas2x2 \<lparr>X = 0, Y = 0\<rparr> \<lparr>X = 2, Y = 0\<rparr> \<lparr>X = 1, Y = 1\<rparr> red =
     Some (Inr (canvas2x2\<lparr>data := [[red, red], [black, red]]\<rparr>)) \<and>
   DrawKochSnowflake canvas2x2 0 \<lparr>X = 0, Y = 0\<rparr> 2 red =
     Some (Inr (canvas2x2\<lparr>data := [[red, red], [black, red]]\<rparr>))"
proof -
  have wf: "wf_ppm canvas2x2"
    by (simp add: wf_ppm_def canvas2x2_def)
  have h1: "int_of_f64 (f64_div (f64_mul sqrt3 (f64_of_int 2)) (Finite 2)) = Inr 1"
    by code_simp
  have tri: "DrawTriangle canvas2x2 \<lparr>X = 0, Y = 0\<rparr> \<lparr>X = 2, Y = 0\<rparr> \<lparr>X = 1, Y = 1\<rparr> red =
      Some (Inr (canvas2x2\<lparr>data := [[red, red], [black, red]]\<rparr>))"
    by code_simp
  have half: "goDiv 2 2 = 1"
    by (simp add: goDiv_def)
  obtain h p' where hp:
      "int_of_f64 (f64_div (f64_mul sqrt3 (f64_of_int 2)) (Finite 2)) = Inr h"
      "DrawKochSnowflake canvas2x2 0 \<lparr>X = 0, Y = 0\<rparr> 2 red = Some (Inr p')"
      "DrawTriangle canvas2x2 \<lparr>X = 0, Y = 0\<rparr> \<lparr>X = X \<lparr>X = 0, Y = 0\<rparr> + 2, Y = Y \<lparr>X = 0, Y = 0\<rparr>\<rparr>
         \<lparr>X = X \<lparr>X = 0, Y = 0\<rparr> + goDiv 2 2, Y = Y \<lparr>X = 0, Y = 0\<rparr> + h\<rparr> red = Some (Inr p')"
    using DrawKochSnowflake_depth_zero [of 2 canvas2x2 "\<lparr>X = 0, Y = 0\<rparr>" red] wf
    by auto
  have "h = 1" using hp(1) h1 by simp
  then have "p' = canvas2x2\<lparr>data := [[red, red], [black, red]]\<rparr>"
    using hp(3) tri by (simp add: half)
  then show ?thesis using wf h1 tri hp(2) by simp
qed

section \<open>\<^verbatim>\<open>DrawFilledTriangle\<close> on an edge of equal \<open>Y\<close>\<close>

text \<open>
  \<^verbatim>\<open>FilledTriangleTools\<close> divides by \<^verbatim>\<open>float64(p2.Y-p1.Y)\<close> whatever it is. When the two
  points have the same \<open>Y\<close> the quotient is an infinity or a NaN, and so is the result.
\<close>

lemma FilledTriangleTools_equal_Y:
  assumes "Y p1 = Y p2"
  shows "FilledTriangleTools p1 p2 y \<in> {PInf, NInf, NaN}"
proof -
  have d: "f64_of_int (wrap64 (Y p2 - Y p1)) = Finite 0"
    using assms by (simp add: f64_of_int_def round64_def wrap64_def)
  obtain a where a: "f64_of_int (X p1) = Finite a" by (simp add: f64_of_int_def)
  obtain b where b: "f64_of_int (wrap64 (y - Y p1)) = Finite b" by (simp add: f64_of_int_def)
  obtain c where c: "f64_of_int (wrap64 (X p2 - X p1)) = Finite c" by (simp add: f64_of_int_def)
  show ?thesis
    by (simp add: FilledTriangleTools_def a b c d)
qed

lemma FilledTriangleTools_equal_Y_conversion:
  assumes "Y p1 = Y p2"
  shows "int_of_f64 (FilledTriangleTools p1 p2 y) = Inl FloatConversionUndefined"
  using FilledTriangleTools_equal_Y [OF assms, of y] by (auto simp: int_of_f64_def)

text \<open>
  C7 at a failing input. The triangle (1,0), (0,1), (1,1) has a horizontal bottom edge.
  On the first scanline the edge from the middle to the bottom vertex gives minus
  infinity, which has no defined conversion to \<^verbatim>\<open>int\<close>: nothing guards the division.
\<close>

theorem DrawFilledTriangle_flat_bottom:
  "FilledTriangleTools \<lparr>X = 0, Y = 1\<rparr> \<lparr>X = 1, Y = 1\<rparr> 0 = NInf \<and>
   DrawFilledTriangle canvas2x2 \<lparr>X = 1, Y = 0\<rparr> \<lparr>X = 0, Y = 1\<rparr> \<lparr>X = 1, Y = 1\<rparr> red =
     Some (Inl FloatConversionUndefined)"
  by code_simp

end
